theory Spec2Isabelle
  imports Main "HOL-Library.Word"
begin

unbundle bit_operations_syntax

section \<open>Bitboard primitives (bitboard.h)\<close>

type_synonym Bitboard = "64 word"

text \<open>
  \<open>lsb\<close> is \<open>__builtin_ctzll\<close>: the number of trailing zero bits, i.e. the index of the
  lowest set bit. The builtin is undefined for 0; every caller that can reach it with 0 is
  guarded in the model (the result is \<open>None\<close> there).
\<close>

fun ctz :: "nat \<Rightarrow> Bitboard \<Rightarrow> nat" where
  "ctz 0 b = 0"
| "ctz (Suc n) b = (if bit b 0 then 0 else Suc (ctz n (drop_bit 1 b)))"

definition lsb :: "Bitboard \<Rightarrow> int" where
  "lsb b = int (ctz 64 b)"

text \<open>\<open>1ULL << sq\<close>; defined in C++ for \<open>0 \<le> sq < 64\<close> only, which callers guard.\<close>

definition sq_mask :: "int \<Rightarrow> Bitboard" where
  "sq_mask sq = push_bit (nat sq) 1"

text \<open>\<open>poplsb\<close> returns the lowest set bit as a mask and clears it in its argument.\<close>

definition poplsb :: "Bitboard \<Rightarrow> Bitboard \<times> Bitboard" where
  "poplsb b = (let s = lsb b in (sq_mask s, b AND (b - 1)))"

definition FILE_A :: Bitboard where "FILE_A = 0x0101010101010101"
definition FILE_H :: Bitboard where "FILE_H = 0x8080808080808080"
definition RANK_2 :: Bitboard where "RANK_2 = 0x000000000000FF00"
definition RANK_7 :: Bitboard where "RANK_7 = 0x00FF000000000000"

section \<open>Board state (board.h)\<close>

datatype Color = WHITE | BLACK

definition WP :: nat where "WP = 0"
definition WN :: nat where "WN = 1"
definition WB :: nat where "WB = 2"
definition WR :: nat where "WR = 3"
definition WQ :: nat where "WQ = 4"
definition WK :: nat where "WK = 5"
definition BP :: nat where "BP = 6"
definition BN :: nat where "BN = 7"
definition BB :: nat where "BB = 8"
definition BR :: nat where "BR = 9"
definition BQ :: nat where "BQ = 10"
definition BK :: nat where "BK = 11"
definition NO_PIECE :: nat where "NO_PIECE = 12"

lemmas piece_defs =
  WP_def WN_def WB_def WR_def WQ_def WK_def BP_def BN_def BB_def BR_def BQ_def BK_def
  NO_PIECE_def

definition MF_NONE :: "8 word" where "MF_NONE = 0"
definition MF_CAPTURE :: "8 word" where "MF_CAPTURE = 1"
definition MF_ENPASSANT :: "8 word" where "MF_ENPASSANT = 2"
definition MF_CASTLE :: "8 word" where "MF_CASTLE = 4"
definition MF_DOUBLE :: "8 word" where "MF_DOUBLE = 8"

lemmas flag_defs = MF_NONE_def MF_CAPTURE_def MF_ENPASSANT_def MF_CASTLE_def MF_DOUBLE_def

text \<open>
  \<open>struct Move\<close> (move.h is not part of the sources; the field order and the widths are the
  ones of the aggregate initialisers \<open>Move{(uint16_t)from,(uint16_t)to,(uint8_t)promo,(uint8_t)0}\<close>
  in uci.cpp and movegen.cpp). The unsigned fields \<open>from\<close>, \<open>to\<close> and \<open>promo\<close> are naturals.
\<close>

record Move =
  from_sq :: nat
  to_sq :: nat
  promo :: nat
  flags :: "8 word"

definition mk_move :: "nat \<Rightarrow> nat \<Rightarrow> nat \<Rightarrow> 8 word \<Rightarrow> Move" where
  "mk_move f t p fl = \<lparr>from_sq = f, to_sq = t, promo = p, flags = fl\<rparr>"

text \<open>The conversion \<open>(uint16_t)x\<close> of an \<open>int\<close>.\<close>

definition u16 :: "int \<Rightarrow> nat" where
  "u16 x = nat (x mod 65536)"

text \<open>The value-initialised \<open>Move{}\<close>.\<close>

definition no_move :: Move where
  "no_move = mk_move 0 0 0 0"

record State =
  last_mv :: Move
  captured :: int
  prevEpSquare :: int
  prevCastleRights :: "8 word"

definition State0 :: State where
  "State0 = \<lparr>last_mv = no_move, captured = - 1, prevEpSquare = - 1, prevCastleRights = 0\<rparr>"

text \<open>
  \<open>class Board\<close>. The arrays \<open>pcs[12]\<close> and \<open>occ[2]\<close> are lists (a board is well formed when
  they have these lengths); \<open>hist[512]\<close> is a store from indices to entries, and every access
  checks the index against 512.
\<close>

record Board =
  pcs :: "Bitboard list"
  occ :: "Bitboard list"
  occAll :: Bitboard
  epSquare :: int
  castleRights :: "8 word"
  stm :: Color
  hist :: "nat \<Rightarrow> State"
  ply :: int

definition cix :: "Color \<Rightarrow> nat" where
  "cix c = (case c of WHITE \<Rightarrow> 0 | BLACK \<Rightarrow> 1)"

definition flip :: "Color \<Rightarrow> Color" where
  "flip c = (if c = WHITE then BLACK else WHITE)"

text \<open>The default member initialisers of \<open>Board\<close>.\<close>

definition Board0 :: Board where
  "Board0 = \<lparr>pcs = replicate 12 0, occ = [0, 0], occAll = 0, epSquare = - 1, castleRights = 0,
     stm = WHITE, hist = (\<lambda>_. State0), ply = 0\<rparr>"

section \<open>Board operations (board.cpp)\<close>

definition clear :: "Board \<Rightarrow> Board" where
  "clear b = b\<lparr>pcs := replicate 12 0, occ := [0, 0], occAll := 0, stm := WHITE, ply := 0,
     epSquare := - 1, castleRights := 0\<rparr>"

definition set_occ :: "Board \<Rightarrow> Board" where
  "set_occ b =
    (let w = pcs b ! WP OR pcs b ! WN OR pcs b ! WB OR pcs b ! WR OR pcs b ! WQ OR pcs b ! WK;
         k = pcs b ! BP OR pcs b ! BN OR pcs b ! BB OR pcs b ! BR OR pcs b ! BQ OR pcs b ! BK
     in b\<lparr>occ := [w, k], occAll := w OR k\<rparr>)"

definition loadFEN :: "Board \<Rightarrow> string \<Rightarrow> bool \<times> Board" where
  "loadFEN b fen =
    (let b1 = clear b in
     if fen = ''startpos'' then
       (let ps = (pcs b1)
              [WR := sq_mask 0 OR sq_mask 7,
               WN := sq_mask 1 OR sq_mask 6,
               WB := sq_mask 2 OR sq_mask 5,
               WQ := sq_mask 3,
               WK := sq_mask 4,
               WP := 0x000000000000FF00,
               BR := sq_mask 56 OR sq_mask 63,
               BN := sq_mask 57 OR sq_mask 62,
               BB := sq_mask 58 OR sq_mask 61,
               BQ := sq_mask 59,
               BK := sq_mask 60,
               BP := 0x00FF000000000000];
            b2 = set_occ (b1\<lparr>pcs := ps\<rparr>)
        in (True, b2\<lparr>stm := WHITE, epSquare := - 1, castleRights := 0xF\<rparr>))
     else (False, b1))"

text \<open>
  \<open>piece_at\<close>: the first index \<open>p\<close> in \<open>WP..BK\<close> whose bitboard has the square, or \<open>NO_PIECE\<close>.
  The shift \<open>1ULL << sq\<close> needs \<open>0 \<le> sq < 64\<close>, which the callers check.
\<close>

definition piece_at :: "Board \<Rightarrow> int \<Rightarrow> nat" where
  "piece_at b sq =
    (case find (\<lambda>p. pcs b ! p AND sq_mask sq \<noteq> 0) [0..<12] of
       Some p \<Rightarrow> p
     | None \<Rightarrow> NO_PIECE)"

definition clr :: "Bitboard list \<Rightarrow> nat \<Rightarrow> int \<Rightarrow> Bitboard list" where
  "clr ps p sq = ps[p := ps ! p AND NOT (sq_mask sq)]"

definition put :: "Bitboard list \<Rightarrow> nat \<Rightarrow> int \<Rightarrow> Bitboard list" where
  "put ps p sq = ps[p := ps ! p OR sq_mask sq]"

text \<open>The six conditional updates of \<open>castleRights\<close> in \<open>makeMove\<close>, in source order.\<close>

definition revoke :: "8 word \<Rightarrow> nat \<Rightarrow> 8 word" where
  "revoke cr i = cr AND NOT (push_bit i 1)"

definition update_rights :: "8 word \<Rightarrow> nat \<Rightarrow> nat \<Rightarrow> nat \<Rightarrow> nat \<Rightarrow> 8 word" where
  "update_rights cr movingPiece fr capturedPiece t =
    (let c1 = (if movingPiece = WK then revoke (revoke cr 0) 1 else cr);
         c2 = (if movingPiece = BK then revoke (revoke c1 2) 3 else c1);
         c3 = (if movingPiece = WR then
                 (let d = (if fr = 0 then revoke c2 1 else c2) in if fr = 7 then revoke d 0 else d)
               else c2);
         c4 = (if movingPiece = BR then
                 (let d = (if fr = 56 then revoke c3 3 else c3) in if fr = 63 then revoke d 2 else d)
               else c3);
         c5 = (if capturedPiece = WR then
                 (let d = (if t = 0 then revoke c4 1 else c4) in if t = 7 then revoke d 0 else d)
               else c4);
         c6 = (if capturedPiece = BR then
                 (let d = (if t = 56 then revoke c5 3 else c5) in if t = 63 then revoke d 2 else d)
               else c5)
     in c6)"

text \<open>The rook relocation of a castling move, keyed on the side to move and the destination.\<close>

definition castle_rook :: "Bitboard list \<Rightarrow> Color \<Rightarrow> nat \<Rightarrow> Bitboard list" where
  "castle_rook ps side t =
    (if side = WHITE then
       (if t = 6 then put (clr ps WR 7) WR 5
        else if t = 2 then put (clr ps WR 0) WR 3
        else ps)
     else
       (if t = 62 then put (clr ps BR 63) BR 61
        else if t = 58 then put (clr ps BR 56) BR 59
        else ps))"

definition uncastle_rook :: "Bitboard list \<Rightarrow> Color \<Rightarrow> nat \<Rightarrow> Bitboard list" where
  "uncastle_rook ps side t =
    (if side = WHITE then
       (if t = 6 then put (clr ps WR 5) WR 7
        else if t = 2 then put (clr ps WR 3) WR 0
        else ps)
     else
       (if t = 62 then put (clr ps BR 61) BR 63
        else if t = 58 then put (clr ps BR 59) BR 56
        else ps))"

text \<open>
  \<open>Board::makeMove\<close>, step by step. The moving piece is \<open>piece_at(m.from)\<close>; the captured
  piece is \<open>piece_at(m.to)\<close>, replaced by the opposing pawn for an en-passant move, and it
  is removed from \<open>capSq\<close> (behind the destination for en passant).
\<close>

definition is_ep :: "Move \<Rightarrow> bool" where
  "is_ep m = (flags m AND MF_ENPASSANT \<noteq> 0)"

definition is_castle :: "Move \<Rightarrow> bool" where
  "is_castle m = (flags m AND MF_CASTLE \<noteq> 0)"

definition movingPiece :: "Board \<Rightarrow> Move \<Rightarrow> nat" where
  "movingPiece b m = piece_at b (int (from_sq m))"

definition capturedPiece :: "Board \<Rightarrow> Move \<Rightarrow> nat" where
  "capturedPiece b m =
    (if is_ep m then (if stm b = WHITE then BP else WP) else piece_at b (int (to_sq m)))"

definition capSq :: "Color \<Rightarrow> Move \<Rightarrow> int" where
  "capSq side m =
    (if is_ep m then (if side = WHITE then int (to_sq m) - 8 else int (to_sq m) + 8)
     else int (to_sq m))"

text \<open>
  Where \<open>makeMove\<close> has defined behaviour in C++: \<open>hist[ply]\<close> inside the array, every shift
  amount below 64 and not negative, and every index into \<open>pcs\<close> within \<open>0..11\<close> (so not a
  move from an empty square, and no promotion piece above 11).
\<close>

definition makeMove_defined :: "Board \<Rightarrow> Move \<Rightarrow> bool" where
  "makeMove_defined b m \<longleftrightarrow>
     0 \<le> ply b \<and> ply b < 512
     \<and> from_sq m < 64 \<and> to_sq m < 64
     \<and> (capturedPiece b m \<noteq> NO_PIECE \<longrightarrow> 0 \<le> capSq (stm b) m \<and> capSq (stm b) m < 64)
     \<and> movingPiece b m \<noteq> NO_PIECE
     \<and> (promo m \<noteq> 0 \<longrightarrow> promo m < 12)"

text \<open>The piece bitboards after the capture is removed and the move is executed.\<close>

definition makeMove_pcs :: "Board \<Rightarrow> Move \<Rightarrow> Bitboard list" where
  "makeMove_pcs b m =
    (let ps1 = (if capturedPiece b m \<noteq> NO_PIECE
                then clr (pcs b) (capturedPiece b m) (capSq (stm b) m) else pcs b);
         ps2 = clr ps1 (movingPiece b m) (int (from_sq m))
     in if promo m \<noteq> 0 then put ps2 (promo m) (int (to_sq m))
        else if is_castle m then
          castle_rook (put ps2 (movingPiece b m) (int (to_sq m))) (stm b) (to_sq m)
        else put ps2 (movingPiece b m) (int (to_sq m)))"

text \<open>
  The en-passant target after the move: cleared, and set again only in the normal-move branch
  (no promotion, no castle flag) by a pawn that moves 16 squares.
\<close>

definition makeMove_ep :: "Board \<Rightarrow> Move \<Rightarrow> int" where
  "makeMove_ep b m =
    (if promo m \<noteq> 0 \<or> is_castle m then - 1
     else if movingPiece b m = BP \<and> int (from_sq m) - int (to_sq m) = 16 then int (from_sq m) - 8
     else if movingPiece b m = WP \<and> int (to_sq m) - int (from_sq m) = 16 then int (from_sq m) + 8
     else - 1)"

definition makeMove :: "Board \<Rightarrow> Move \<Rightarrow> Board option" where
  "makeMove b m =
    (if \<not> makeMove_defined b m then None
     else
       Some ((set_occ
                (b\<lparr>hist := (hist b)(nat (ply b) :=
                             \<lparr>last_mv = m, captured = int (capturedPiece b m),
                              prevEpSquare = epSquare b, prevCastleRights = castleRights b\<rparr>),
                   pcs := makeMove_pcs b m,
                   epSquare := makeMove_ep b m,
                   castleRights := update_rights (castleRights b) (movingPiece b m) (from_sq m)
                                     (capturedPiece b m) (to_sq m)\<rparr>))
             \<lparr>stm := flip (stm b), ply := ply b + 1\<rparr>))"

text \<open>
  \<open>Board::unmakeMove\<close>. It first steps back \<open>ply\<close> and the side to move, so \<open>side\<close> below is
  the side that made the move; \<open>cap\<close> is the capture recorded in \<open>hist[ply - 1]\<close>.
\<close>

definition restored :: "Board \<Rightarrow> bool" where
  "restored b =
    (captured (hist b (nat (ply b - 1))) \<noteq> int NO_PIECE \<and> captured (hist b (nat (ply b - 1))) \<noteq> - 1)"

text \<open>
  Defined behaviour of \<open>unmakeMove\<close>: \<open>hist[ply - 1]\<close> inside the array, shifts in range, a piece
  on the destination of a non-promotion (else \<open>pcs[NO_PIECE]\<close> is written), and a recorded
  capture that is a piece index.
\<close>

definition unmakeMove_defined :: "Board \<Rightarrow> Move \<Rightarrow> bool" where
  "unmakeMove_defined b m \<longleftrightarrow>
     0 \<le> ply b - 1 \<and> ply b - 1 < 512
     \<and> to_sq m < 64 \<and> from_sq m < 64
     \<and> (promo m \<noteq> 0 \<longrightarrow> promo m < 12)
     \<and> (promo m = 0 \<longrightarrow> piece_at b (int (to_sq m)) \<noteq> NO_PIECE)
     \<and> (restored b \<longrightarrow> 0 \<le> captured (hist b (nat (ply b - 1)))
                        \<and> captured (hist b (nat (ply b - 1))) < 12)
     \<and> (restored b \<and> promo m = 0 \<longrightarrow>
           0 \<le> capSq (flip (stm b)) m \<and> capSq (flip (stm b)) m < 64)"

definition unmakeMove_pcs :: "Board \<Rightarrow> Move \<Rightarrow> Bitboard list" where
  "unmakeMove_pcs b m =
    (let cap = nat (captured (hist b (nat (ply b - 1)))); side = flip (stm b) in
     if promo m \<noteq> 0 then
       (let ps1 = put (clr (pcs b) (promo m) (int (to_sq m)))
                    (if side = WHITE then BP else WP) (int (from_sq m))
        in if restored b then put ps1 cap (int (to_sq m)) else ps1)
     else
       (let pieceOnTo = piece_at b (int (to_sq m));
            ps1 = put (clr (pcs b) pieceOnTo (int (to_sq m))) pieceOnTo (int (from_sq m));
            ps2 = (if is_castle m then uncastle_rook ps1 side (to_sq m) else ps1)
        in if restored b then put ps2 cap (capSq side m) else ps2))"

definition unmakeMove :: "Board \<Rightarrow> Move \<Rightarrow> Board option" where
  "unmakeMove b m =
    (if \<not> unmakeMove_defined b m then None
     else
       Some (set_occ
               (b\<lparr>ply := ply b - 1, stm := flip (stm b),
                  epSquare := prevEpSquare (hist b (nat (ply b - 1))),
                  castleRights := prevCastleRights (hist b (nat (ply b - 1))),
                  pcs := unmakeMove_pcs b m\<rparr>)))"

definition on_board :: "int \<Rightarrow> int \<Rightarrow> bool" where
  "on_board rr ff = (rr \<ge> 0 \<and> rr < 8 \<and> ff \<ge> 0 \<and> ff < 8)"

definition knight_steps :: "(int \<times> int) list" where
  "knight_steps = [(2, 1), (2, - 1), (- 2, 1), (- 2, - 1), (1, 2), (1, - 2), (- 1, 2), (- 1, - 2)]"

text \<open>The pairs \<open>(dr, df)\<close> of the nested loops over \<open>-1..1\<close> that skip \<open>(0, 0)\<close>.\<close>

definition king_steps :: "(int \<times> int) list" where
  "king_steps = [(- 1, - 1), (- 1, 0), (- 1, 1), (0, - 1), (0, 1), (1, - 1), (1, 0), (1, 1)]"

definition diag_dirs :: "(int \<times> int) list" where
  "diag_dirs = [(1, 1), (1, - 1), (- 1, 1), (- 1, - 1)]"

definition orth_dirs :: "(int \<times> int) list" where
  "orth_dirs = [(1, 0), (- 1, 0), (0, 1), (0, - 1)]"

text \<open>
  The ray walk shared by \<open>inCheck\<close> and \<open>attackedBy\<close>: step from \<open>(rr, ff)\<close> in direction
  \<open>(dr, df)\<close> while on the board; at the first occupied square report whether it holds one of
  the attackers. The source only walks the eight unit directions; for the zero direction (where
  the C++ loop would not advance) the model reports no hit.
\<close>

function ray_hit :: "Bitboard \<Rightarrow> Bitboard \<Rightarrow> int \<Rightarrow> int \<Rightarrow> int \<Rightarrow> int \<Rightarrow> bool" where
  "ray_hit oc att dr df rr ff =
    (if (dr = 0 \<and> df = 0) \<or> \<not> on_board rr ff then False
     else if oc AND sq_mask (rr * 8 + ff) \<noteq> 0 then att AND sq_mask (rr * 8 + ff) \<noteq> 0
     else ray_hit oc att dr df (rr + dr) (ff + df))"
  by pat_completeness auto
termination
  by (relation "measure (\<lambda>(oc, att, dr, df, rr, ff).
        if dr > 0 then nat (8 - rr) else if dr < 0 then nat (rr + 1)
        else if df > 0 then nat (8 - ff) else nat (ff + 1))")
     (auto simp: on_board_def)

declare ray_hit.simps [simp del]

definition step_hit :: "Bitboard \<Rightarrow> int \<Rightarrow> int \<Rightarrow> int \<times> int \<Rightarrow> bool" where
  "step_hit att rank file d =
    (case d of (dr, df) \<Rightarrow>
       on_board (rank + dr) (file + df) \<and> att AND sq_mask ((rank + dr) * 8 + (file + df)) \<noteq> 0)"

definition inCheck :: "Board \<Rightarrow> Color \<Rightarrow> bool" where
  "inCheck b c =
    (let kbb = pcs b ! (if c = WHITE then WK else BK) in
     if kbb = 0 then False
     else
       let kingSquare = lsb kbb;
           kingMask = sq_mask kingSquare;
           rank = kingSquare div 8;
           file = kingSquare mod 8;
           pawnAtt = (if c = WHITE
                      then drop_bit 7 (pcs b ! BP AND NOT FILE_H) OR drop_bit 9 (pcs b ! BP AND NOT FILE_A)
                      else push_bit 7 (pcs b ! WP AND NOT FILE_A) OR push_bit 9 (pcs b ! WP AND NOT FILE_H));
           kn = pcs b ! (if c = WHITE then BN else WN);
           kg = pcs b ! (if c = WHITE then BK else WK);
           dg = (if c = WHITE then pcs b ! BB OR pcs b ! BQ else pcs b ! WB OR pcs b ! WQ);
           og = (if c = WHITE then pcs b ! BR OR pcs b ! BQ else pcs b ! WR OR pcs b ! WQ)
       in
         pawnAtt AND kingMask \<noteq> 0
         \<or> list_ex (step_hit kn rank file) knight_steps
         \<or> list_ex (step_hit kg rank file) king_steps
         \<or> list_ex (\<lambda>(dr, df). ray_hit (occAll b) dg dr df (rank + dr) (file + df)) diag_dirs
         \<or> list_ex (\<lambda>(dr, df). ray_hit (occAll b) og dr df (rank + dr) (file + df)) orth_dirs)"

section \<open>Move generation (movegen.cpp)\<close>

text \<open>The attack tables filled by \<open>initKnight\<close> and \<open>initKing\<close>, as functions of the index.\<close>

definition step_mask :: "(int \<times> int) list \<Rightarrow> int \<Rightarrow> Bitboard" where
  "step_mask steps sq =
    (let r = sq div 8; f = sq mod 8 in
     fold (\<lambda>(dr, df) msk.
             if on_board (r + dr) (f + df) then msk OR sq_mask ((r + dr) * 8 + (f + df)) else msk)
          steps 0)"

definition knightAttacks :: "int \<Rightarrow> Bitboard" where
  "knightAttacks sq = step_mask knight_steps sq"

definition kingAttacks :: "int \<Rightarrow> Bitboard" where
  "kingAttacks sq = step_mask king_steps sq"

definition attackedBy :: "Board \<Rightarrow> int \<Rightarrow> Color \<Rightarrow> bool" where
  "attackedBy b sq by =
    (let target = sq_mask sq;
         att = (if by = WHITE
                then push_bit 7 (pcs b ! WP AND NOT FILE_A) OR push_bit 9 (pcs b ! WP AND NOT FILE_H)
                else drop_bit 7 (pcs b ! BP AND NOT FILE_H) OR drop_bit 9 (pcs b ! BP AND NOT FILE_A));
         dg = (if by = WHITE then pcs b ! WB OR pcs b ! WQ else pcs b ! BB OR pcs b ! BQ);
         og = (if by = WHITE then pcs b ! WR OR pcs b ! WQ else pcs b ! BR OR pcs b ! BQ);
         r0 = sq div 8;
         f0 = sq mod 8
     in
       att AND target \<noteq> 0
       \<or> knightAttacks sq AND pcs b ! (if by = WHITE then WN else BN) \<noteq> 0
       \<or> kingAttacks sq AND pcs b ! (if by = WHITE then WK else BK) \<noteq> 0
       \<or> list_ex (\<lambda>(dr, df). ray_hit (occAll b) dg dr df (r0 + dr) (f0 + df)) diag_dirs
       \<or> list_ex (\<lambda>(dr, df). ray_hit (occAll b) og dr df (r0 + dr) (f0 + df)) orth_dirs)"

text \<open>
  The loop \<open>while(m){ Bitboard tobb = poplsb(m); int to = lsb(tobb); ... }\<close>: the squares it
  visits, in order.
\<close>

function squares :: "Bitboard \<Rightarrow> int list" where
  "squares m = (if m = 0 then [] else lsb (fst (poplsb m)) # squares (snd (poplsb m)))"
  by pat_completeness auto
termination
proof (relation "measure unat")
  show "wf (measure unat)"
    by simp
next
  fix m :: Bitboard
  assume "m \<noteq> 0"
  then have "m - 1 < m"
    by (simp add: word_less_nat_alt unat_minus_one unat_gt_0)
  moreover have "m AND (m - 1) \<le> m - 1"
    by (rule word_and_le1)
  ultimately have "unat (m AND (m - 1)) < unat m"
    by (simp add: word_less_nat_alt word_le_nat_alt)
  then show "(snd (poplsb m), m) \<in> measure unat"
    by (simp add: poplsb_def Let_def)
qed

declare squares.simps [simp del]

definition pushMovesFromMask :: "int \<Rightarrow> Bitboard \<Rightarrow> Move list" where
  "pushMovesFromMask fr msk = map (\<lambda>t. mk_move (u16 fr) (u16 t) 0 0) (squares msk)"

text \<open>
  The pawn loops of \<open>generateMoves\<close> have the same shape, with \<open>from = to + d\<close> for a fixed
  offset \<open>d\<close> (\<open>-8\<close>, \<open>-16\<close>, \<open>-7\<close>, \<open>-9\<close> for White and the opposite for Black).
\<close>

definition pawnMoves :: "Bitboard \<Rightarrow> int \<Rightarrow> Move list" where
  "pawnMoves msk d = map (\<lambda>t. mk_move (u16 (t + d)) (u16 t) 0 0) (squares msk)"

function slide_loop :: "Board \<Rightarrow> int \<Rightarrow> int \<Rightarrow> int \<Rightarrow> int \<Rightarrow> int \<Rightarrow> Move list" where
  "slide_loop b fr dr df rr ff =
    (if (dr = 0 \<and> df = 0) \<or> \<not> on_board rr ff then []
     else
       let t = rr * 8 + ff; toMask = sq_mask t in
       if occAll b AND toMask \<noteq> 0 then
         (if stm b = WHITE then
            (if occ b ! cix BLACK AND toMask \<noteq> 0 then [mk_move (u16 fr) (u16 t) 0 0] else [])
          else
            (if occ b ! cix WHITE AND toMask \<noteq> 0 then [mk_move (u16 fr) (u16 t) 0 0] else []))
       else mk_move (u16 fr) (u16 t) 0 0 # slide_loop b fr dr df (rr + dr) (ff + df))"
  by pat_completeness auto
termination
  by (relation "measure (\<lambda>(b, fr, dr, df, rr, ff).
        if dr > 0 then nat (8 - rr) else if dr < 0 then nat (rr + 1)
        else if df > 0 then nat (8 - ff) else nat (ff + 1))")
     (auto simp: on_board_def)

declare slide_loop.simps [simp del]

text \<open>
  \<open>slideInDirection\<close>; all call sites pass one of the eight unit directions (for the zero
  direction, where the C++ loop would not advance, the model yields no move).
\<close>

definition slideInDirection :: "Board \<Rightarrow> int \<Rightarrow> int \<Rightarrow> int \<Rightarrow> Move list" where
  "slideInDirection b fr dr df = slide_loop b fr dr df (fr div 8 + dr) (fr mod 8 + df)"

definition knightPart :: "Board \<Rightarrow> nat \<Rightarrow> Bitboard \<Rightarrow> Move list" where
  "knightPart b n them =
    concat (map (\<lambda>fr. pushMovesFromMask fr (knightAttacks fr AND NOT (occAll b))
                     @ pushMovesFromMask fr (knightAttacks fr AND them))
                (squares (pcs b ! n)))"

definition sliderPart :: "Board \<Rightarrow> nat \<Rightarrow> (int \<times> int) list \<Rightarrow> Move list" where
  "sliderPart b p dirs =
    concat (map (\<lambda>fr. concat (map (\<lambda>(dr, df). slideInDirection b fr dr df) dirs))
                (squares (pcs b ! p)))"

definition kingPart :: "Board \<Rightarrow> nat \<Rightarrow> Bitboard \<Rightarrow> Move list" where
  "kingPart b k them =
    (let fr = lsb (pcs b ! k); attacks = kingAttacks fr in
     pushMovesFromMask fr (attacks AND NOT (occAll b)) @ pushMovesFromMask fr (attacks AND them))"

definition castleWhite :: "Board \<Rightarrow> Move list" where
  "castleWhite b =
    (if pcs b ! WK AND sq_mask 4 \<noteq> 0 then
       (if castleRights b AND push_bit 0 1 \<noteq> 0
           \<and> occAll b AND (sq_mask 5 OR sq_mask 6) = 0
           \<and> pcs b ! WR AND sq_mask 7 \<noteq> 0
           \<and> \<not> attackedBy b 4 BLACK \<and> \<not> attackedBy b 5 BLACK \<and> \<not> attackedBy b 6 BLACK
        then [mk_move 4 6 0 MF_CASTLE] else [])
       @
       (if castleRights b AND push_bit 1 1 \<noteq> 0
           \<and> occAll b AND (sq_mask 3 OR sq_mask 2) = 0
           \<and> pcs b ! WR AND sq_mask 0 \<noteq> 0
           \<and> \<not> attackedBy b 4 BLACK \<and> \<not> attackedBy b 3 BLACK \<and> \<not> attackedBy b 2 BLACK
        then [mk_move 4 2 0 MF_CASTLE] else [])
     else [])"

definition castleBlack :: "Board \<Rightarrow> Move list" where
  "castleBlack b =
    (if pcs b ! BK AND sq_mask 60 \<noteq> 0 then
       (if castleRights b AND push_bit 2 1 \<noteq> 0
           \<and> occAll b AND (sq_mask 61 OR sq_mask 62) = 0
           \<and> pcs b ! BR AND sq_mask 63 \<noteq> 0
           \<and> \<not> attackedBy b 60 WHITE \<and> \<not> attackedBy b 61 WHITE \<and> \<not> attackedBy b 62 WHITE
        then [mk_move 60 62 0 MF_CASTLE] else [])
       @
       (if castleRights b AND push_bit 3 1 \<noteq> 0
           \<and> occAll b AND (sq_mask 59 OR sq_mask 58) = 0
           \<and> pcs b ! BR AND sq_mask 56 \<noteq> 0
           \<and> \<not> attackedBy b 60 WHITE \<and> \<not> attackedBy b 59 WHITE \<and> \<not> attackedBy b 58 WHITE
        then [mk_move 60 58 0 MF_CASTLE] else [])
     else [])"

definition epWhite :: "Board \<Rightarrow> Move list" where
  "epWhite b =
    (if epSquare b \<noteq> - 1 then
       (let epsq = epSquare b; epMask = sq_mask epsq in
        (if (pcs b ! WP AND NOT FILE_A) AND drop_bit 7 epMask \<noteq> 0
         then [mk_move (u16 (epsq - 7)) (u16 epsq) 0 (MF_ENPASSANT OR MF_CAPTURE)] else [])
        @
        (if (pcs b ! WP AND NOT FILE_H) AND drop_bit 9 epMask \<noteq> 0
         then [mk_move (u16 (epsq - 9)) (u16 epsq) 0 (MF_ENPASSANT OR MF_CAPTURE)] else []))
     else [])"

definition epBlack :: "Board \<Rightarrow> Move list" where
  "epBlack b =
    (if epSquare b \<noteq> - 1 then
       (let epsq = epSquare b; epMask = sq_mask epsq in
        (if (pcs b ! BP AND NOT FILE_H) AND push_bit 7 epMask \<noteq> 0
         then [mk_move (u16 (epsq + 7)) (u16 epsq) 0 (MF_ENPASSANT OR MF_CAPTURE)] else [])
        @
        (if (pcs b ! BP AND NOT FILE_A) AND push_bit 9 epMask \<noteq> 0
         then [mk_move (u16 (epsq + 9)) (u16 epsq) 0 (MF_ENPASSANT OR MF_CAPTURE)] else []))
     else [])"

definition pawnsWhite :: "Board \<Rightarrow> Move list" where
  "pawnsWhite b =
    (let free = NOT (occAll b);
         singles = push_bit 8 (pcs b ! WP) AND free;
         doubles = push_bit 8 (singles AND push_bit 8 RANK_2) AND free;
         capNW = push_bit 7 (pcs b ! WP AND NOT FILE_A) AND occ b ! cix BLACK;
         capNE = push_bit 9 (pcs b ! WP AND NOT FILE_H) AND occ b ! cix BLACK
     in pawnMoves singles (- 8) @ pawnMoves doubles (- 16)
        @ pawnMoves capNW (- 7) @ pawnMoves capNE (- 9))"

definition pawnsBlack :: "Board \<Rightarrow> Move list" where
  "pawnsBlack b =
    (let free = NOT (occAll b);
         singles = drop_bit 8 (pcs b ! BP) AND free;
         doubles = drop_bit 8 (singles AND drop_bit 8 RANK_7) AND free;
         capSE = drop_bit 7 (pcs b ! BP AND NOT FILE_H) AND occ b ! cix WHITE;
         capSW = drop_bit 9 (pcs b ! BP AND NOT FILE_A) AND occ b ! cix WHITE
     in pawnMoves singles 8 @ pawnMoves doubles 16
        @ pawnMoves capSE 7 @ pawnMoves capSW 9)"

text \<open>The pseudo-legal moves, in the order in which \<open>generateMoves\<close> pushes them.\<close>

definition pseudoMoves :: "Board \<Rightarrow> Move list" where
  "pseudoMoves b =
    (if stm b = WHITE then
       pawnsWhite b @ epWhite b
       @ knightPart b WN (occ b ! cix BLACK)
       @ sliderPart b WB diag_dirs
       @ sliderPart b WR orth_dirs
       @ sliderPart b WQ (diag_dirs @ orth_dirs)
       @ kingPart b WK (occ b ! cix BLACK)
       @ castleWhite b
     else
       pawnsBlack b @ epBlack b
       @ knightPart b BN (occ b ! cix WHITE)
       @ sliderPart b BB diag_dirs
       @ sliderPart b BR orth_dirs
       @ sliderPart b BQ (diag_dirs @ orth_dirs)
       @ kingPart b BK (occ b ! cix WHITE)
       @ castleBlack b)"

text \<open>
  The legality filter: each pseudo-legal move is applied to a copy of the board and kept when
  the mover's king is not in check afterwards.
\<close>

fun legalFilter :: "Board \<Rightarrow> Move list \<Rightarrow> Move list option" where
  "legalFilter b [] = Some []"
| "legalFilter b (m # ms) =
    (case makeMove b m of
       None \<Rightarrow> None
     | Some t \<Rightarrow>
        (case legalFilter b ms of
           None \<Rightarrow> None
         | Some r \<Rightarrow> Some (if \<not> inCheck t (stm b) then m # r else r)))"

text \<open>
  \<open>generateMoves\<close>. Undefined in C++ (\<open>None\<close>) when the side to move has no king
  (\<open>lsb\<close> of 0 indexes \<open>kingAttacks\<close>), when the en-passant square is neither \<open>-1\<close> nor a
  square (shift out of range), and when a trial \<open>makeMove\<close> is undefined.
\<close>

definition generateMoves :: "Board \<Rightarrow> Move list option" where
  "generateMoves b =
    (if pcs b ! (if stm b = WHITE then WK else BK) = 0 then None
     else if epSquare b \<noteq> - 1 \<and> \<not> (0 \<le> epSquare b \<and> epSquare b < 64) then None
     else legalFilter b (pseudoMoves b))"


section \<open>Perft (movegen.cpp)\<close>

text \<open>
  A \<open>for\<close> loop over a vector whose body can fail: the state is threaded through the
  elements in order.
\<close>

fun loopM :: "('s \<Rightarrow> 'a \<Rightarrow> 's option) \<Rightarrow> 'a list \<Rightarrow> 's \<Rightarrow> 's option" where
  "loopM f [] s = Some s"
| "loopM f (x # xs) s = (case f s x of None \<Rightarrow> None | Some s' \<Rightarrow> loopM f xs s')"

text \<open>
  \<open>perft\<close> works on the caller's board in place, so the model returns the board with the
  count (\<open>unsigned long long\<close>, a 64-bit word). The recursion has a base case at depth 0
  only; the first argument bounds the recursion depth, and the result is \<open>None\<close> when that
  bound is reached or when the C++ has no defined behaviour.
\<close>

fun perft :: "nat \<Rightarrow> Board \<Rightarrow> int \<Rightarrow> (64 word \<times> Board) option" where
  "perft 0 b depth = None"
| "perft (Suc k) b depth =
    (if depth = 0 then Some (1, b)
     else
       case generateMoves b of
         None \<Rightarrow> None
       | Some mv \<Rightarrow>
           loopM (\<lambda>(nodes, b0) m.
                    case makeMove b0 m of
                      None \<Rightarrow> None
                    | Some b1 \<Rightarrow>
                       (case perft k b1 (depth - 1) of
                          None \<Rightarrow> None
                        | Some (n, b2) \<Rightarrow>
                           (case unmakeMove b2 m of
                              None \<Rightarrow> None
                            | Some b3 \<Rightarrow> Some (nodes + n, b3))))
                 mv (0, b))"

section \<open>Search (search.cpp)\<close>

definition pieceValueForMVV :: "nat \<Rightarrow> int" where
  "pieceValueForMVV p =
    (if p = WP \<or> p = BP then 100
     else if p = WN \<or> p = BN then 320
     else if p = WB \<or> p = BB then 330
     else if p = WR \<or> p = BR then 500
     else if p = WQ \<or> p = BQ then 900
     else 0)"

text \<open>
  \<open>isCapture\<close> and \<open>mvvLva\<close> shift by \<open>m.to\<close> and \<open>m.from\<close>; they are only applied to
  generated moves, whose squares are below 64.
\<close>

definition isCapture :: "Board \<Rightarrow> Move \<Rightarrow> bool" where
  "isCapture b m =
    (let us = stm b; them = (if us = WHITE then BLACK else WHITE); toMask = sq_mask (int (to_sq m))
     in occ b ! cix them AND toMask \<noteq> 0 \<or> flags m AND MF_ENPASSANT \<noteq> 0)"

definition mvvLva :: "Board \<Rightarrow> Move \<Rightarrow> int" where
  "mvvLva b m =
    (if \<not> isCapture b m then 0
     else
       let victim = (if flags m AND MF_ENPASSANT \<noteq> 0 then (if stm b = WHITE then BP else WP)
                     else piece_at b (int (to_sq m)));
           attacker = piece_at b (int (from_sq m))
       in pieceValueForMVV victim * 10 - pieceValueForMVV attacker)"

text \<open>
  \<open>std::stable_sort\<close> with the comparator \<open>mvvLva(b, a) > mvvLva(b, z)\<close>: a stable sort in
  descending score order.
\<close>

definition orderMoves :: "Board \<Rightarrow> Move list \<Rightarrow> Move list" where
  "orderMoves b ms = sort_key (\<lambda>m. - mvvLva b m) ms"

text \<open>A \<open>for\<close> loop with \<open>break\<close>: the body returns the new state and whether to stop.\<close>

fun loopBreak :: "('s \<Rightarrow> 'a \<Rightarrow> ('s \<times> bool) option) \<Rightarrow> 'a list \<Rightarrow> 's \<Rightarrow> 's option" where
  "loopBreak f [] s = Some s"
| "loopBreak f (x # xs) s =
    (case f s x of
       None \<Rightarrow> None
     | Some (s', stop) \<Rightarrow> if stop then Some s' else loopBreak f xs s')"

text \<open>
  \<open>negamax\<close>, over an evaluator \<open>ev\<close> (the static evaluation is an external collaborator of
  the search). Scores are mathematical integers. The result carries the board and the node
  counter, which the C++ updates through references; the first argument bounds the recursion
  depth as in \<open>perft\<close>.
\<close>

fun negamax ::
  "nat \<Rightarrow> (Board \<Rightarrow> int) \<Rightarrow> Board \<Rightarrow> int \<Rightarrow> int \<Rightarrow> int \<Rightarrow> 64 word
    \<Rightarrow> (int \<times> Board \<times> 64 word) option" where
  "negamax 0 ev b depth alpha beta nodeCount = None"
| "negamax (Suc k) ev b depth alpha beta nodeCount =
    (if depth = 0 then Some (ev b, b, nodeCount + 1)
     else
       case generateMoves b of
         None \<Rightarrow> None
       | Some legalMoves \<Rightarrow>
           if legalMoves = [] then
             Some ((if inCheck b (stm b) then - 100000 + ply b else 0), b, nodeCount + 1)
           else
             (case loopBreak
                     (\<lambda>(bestScore, alpha', b0, nc) mv.
                        case makeMove b0 mv of
                          None \<Rightarrow> None
                        | Some b1 \<Rightarrow>
                           (case negamax k ev b1 (depth - 1) (- beta) (- alpha') nc of
                              None \<Rightarrow> None
                            | Some (r, b2, nc') \<Rightarrow>
                               (case unmakeMove b2 mv of
                                  None \<Rightarrow> None
                                | Some b3 \<Rightarrow>
                                    let score = - r;
                                        bestScore' = (if score > bestScore then score else bestScore);
                                        alpha'' = (if score > alpha' then score else alpha')
                                    in Some ((bestScore', alpha'', b3, nc'), alpha'' \<ge> beta))))
                     (orderMoves b legalMoves) (- 10000000, alpha, b, nodeCount) of
                None \<Rightarrow> None
              | Some (bestScore, _, b', nc) \<Rightarrow> Some (bestScore, b', nc)))"

text \<open>
  The loop shared by \<open>chooseBestMove\<close> and \<open>search_root\<close>: no cutoff, the best move is
  tracked, and every child is searched with a node counter that starts at \<open>nc0\<close> and is
  folded into the running total by \<open>acc\<close>.
\<close>

definition rootStep ::
  "nat \<Rightarrow> (Board \<Rightarrow> int) \<Rightarrow> int \<Rightarrow> int
    \<Rightarrow> (int \<times> int \<times> Move \<times> Board \<times> 64 word) \<Rightarrow> Move \<Rightarrow> bool
    \<Rightarrow> (int \<times> int \<times> Move \<times> Board \<times> 64 word) option" where
  "rootStep k ev depth beta s mv fresh =
    (case s of (bestScore, alpha, bestMove, b0, nodes) \<Rightarrow>
       case makeMove b0 mv of
         None \<Rightarrow> None
       | Some b1 \<Rightarrow>
          (case negamax k ev b1 (depth - 1) (- beta) (- alpha) (if fresh then 0 else nodes) of
             None \<Rightarrow> None
           | Some (r, b2, nc) \<Rightarrow>
              (case unmakeMove b2 mv of
                 None \<Rightarrow> None
               | Some b3 \<Rightarrow>
                   let score = - r in
                   Some ((if score > bestScore then score else bestScore),
                         (if score > alpha then score else alpha),
                         (if score > bestScore then mv else bestMove),
                         b3,
                         (if fresh then nodes + nc else nc)))))"

definition chooseBestMove ::
  "nat \<Rightarrow> (Board \<Rightarrow> int) \<Rightarrow> Board \<Rightarrow> int \<Rightarrow> 64 word \<Rightarrow> (Move \<times> Board \<times> 64 word) option" where
  "chooseBestMove k ev b depth nodeCount =
    (case generateMoves b of
       None \<Rightarrow> None
     | Some legalMoves \<Rightarrow>
         if legalMoves = [] then Some (no_move, b, nodeCount)
         else
           (case loopM (\<lambda>s mv. rootStep k ev depth 10000000 s mv False)
                   (orderMoves b legalMoves) (- 10000000, - 10000000, no_move, b, nodeCount) of
              None \<Rightarrow> None
            | Some (_, _, bestMove, b', nc) \<Rightarrow> Some (bestMove, b', nc)))"

record SearchResult =
  best :: Move
  score :: int
  nodes :: "64 word"
  pv :: "Move list"

text \<open>The principal-variation walk of \<open>search_root\<close>: the loop \<open>while(d > 0)\<close>.\<close>

function pvWalk ::
  "nat \<Rightarrow> (Board \<Rightarrow> int) \<Rightarrow> Board \<Rightarrow> int \<Rightarrow> Move list \<Rightarrow> 64 word
    \<Rightarrow> (Move list \<times> 64 word) option" where
  "pvWalk k ev walk d line tot =
    (if d > 0 then
       (case chooseBestMove k ev walk d 0 of
          None \<Rightarrow> None
        | Some (next, walk1, extraNodes) \<Rightarrow>
            if \<not> (from_sq next \<noteq> 0 \<or> to_sq next \<noteq> 0) then Some (line, tot + extraNodes)
            else
              (case makeMove walk1 next of
                 None \<Rightarrow> None
               | Some walk2 \<Rightarrow> pvWalk k ev walk2 (d - 1) (line @ [next]) (tot + extraNodes)))
     else Some (line, tot))"
  by pat_completeness auto
termination
  by (relation "measure (\<lambda>(k, ev, walk, d, line, tot). nat d)") auto

declare pvWalk.simps [simp del]

definition search_root ::
  "nat \<Rightarrow> (Board \<Rightarrow> int) \<Rightarrow> Board \<Rightarrow> int \<Rightarrow> (SearchResult \<times> Board) option" where
  "search_root k ev b depth =
    (case generateMoves b of
       None \<Rightarrow> None
     | Some legalMoves \<Rightarrow>
        (case loopM (\<lambda>s mv. rootStep k ev depth 10000000 s mv True)
                (orderMoves b legalMoves) (- 10000000, - 10000000, no_move, b, 0) of
           None \<Rightarrow> None
         | Some (bestScore, _, bestMove, b', tot) \<Rightarrow>
             if from_sq bestMove \<noteq> 0 \<or> to_sq bestMove \<noteq> 0 then
               (case makeMove b' bestMove of
                  None \<Rightarrow> None
                | Some walk \<Rightarrow>
                   (case pvWalk k ev walk (depth - 1) [bestMove] tot of
                      None \<Rightarrow> None
                    | Some (line, tot') \<Rightarrow>
                        Some (\<lparr>best = bestMove, score = bestScore, nodes = tot', pv = line\<rparr>, b')))
             else Some (\<lparr>best = bestMove, score = bestScore, nodes = tot, pv = []\<rparr>, b')))"


section \<open>Positions, invariants and reachability\<close>

text \<open>The standard start: a fresh board after \<open>loadFEN("startpos")\<close>, as \<open>main\<close> sets it up.\<close>

definition startpos :: Board where
  "startpos = snd (loadFEN Board0 ''startpos'')"

text \<open>\<open>has ps p n\<close>: square \<open>n\<close> is set in the bitboard of piece \<open>p\<close>.\<close>

definition has :: "Bitboard list \<Rightarrow> nat \<Rightarrow> nat \<Rightarrow> bool" where
  "has ps p n = bit (ps ! p) n"

definition vacant :: "Bitboard list \<Rightarrow> nat \<Rightarrow> bool" where
  "vacant ps n = (\<forall>p<12. \<not> has ps p n)"

definition disjoint_pcs :: "Bitboard list \<Rightarrow> bool" where
  "disjoint_pcs ps = (\<forall>p<12. \<forall>q<12. p \<noteq> q \<longrightarrow> ps ! p AND ps ! q = 0)"

definition whiteOcc :: "Bitboard list \<Rightarrow> Bitboard" where
  "whiteOcc ps = ps ! WP OR ps ! WN OR ps ! WB OR ps ! WR OR ps ! WQ OR ps ! WK"

definition blackOcc :: "Bitboard list \<Rightarrow> Bitboard" where
  "blackOcc ps = ps ! BP OR ps ! BN OR ps ! BB OR ps ! BR OR ps ! BQ OR ps ! BK"

text \<open>
  The occupancy predicate of the data model: combined occupancy is the union of the per-side
  occupancies, which is the union of all twelve piece bitboards, and no square is set in more
  than one piece bitboard.
\<close>

definition occupancy_ok :: "Board \<Rightarrow> bool" where
  "occupancy_ok b \<longleftrightarrow>
     occAll b = occ b ! cix WHITE OR occ b ! cix BLACK
     \<and> occ b ! cix WHITE OR occ b ! cix BLACK = foldr (OR) (pcs b) 0
     \<and> disjoint_pcs (pcs b)"

text \<open>
  The en-passant part of the position invariant: a target is the empty square behind a pawn
  of the side that has just moved, on that side's third rank.
\<close>

definition ep_ok :: "Board \<Rightarrow> bool" where
  "ep_ok b \<longleftrightarrow>
     epSquare b = - 1
     \<or> (stm b = WHITE \<and> 40 \<le> epSquare b \<and> epSquare b \<le> 47
          \<and> vacant (pcs b) (nat (epSquare b)) \<and> has (pcs b) BP (nat (epSquare b - 8)))
     \<or> (stm b = BLACK \<and> 16 \<le> epSquare b \<and> epSquare b \<le> 23
          \<and> vacant (pcs b) (nat (epSquare b)) \<and> has (pcs b) WP (nat (epSquare b + 8)))"

definition Inv :: "Board \<Rightarrow> bool" where
  "Inv b \<longleftrightarrow>
     length (pcs b) = 12
     \<and> disjoint_pcs (pcs b)
     \<and> occ b = [whiteOcc (pcs b), blackOcc (pcs b)]
     \<and> occAll b = whiteOcc (pcs b) OR blackOcc (pcs b)
     \<and> ep_ok b"

text \<open>
  Two boards agree when they are the same position with the same live history: all fields are
  equal, and the history entries below \<open>ply\<close> are (entries at or above \<open>ply\<close> are dead, they
  are overwritten by the next \<open>makeMove\<close>).
\<close>

definition same_position :: "Board \<Rightarrow> Board \<Rightarrow> bool" where
  "same_position a b \<longleftrightarrow>
     pcs a = pcs b \<and> occ a = occ b \<and> occAll a = occAll b \<and> stm a = stm b
     \<and> epSquare a = epSquare b \<and> castleRights a = castleRights b \<and> ply a = ply b"

definition agree :: "Board \<Rightarrow> Board \<Rightarrow> bool" where
  "agree a b \<longleftrightarrow> same_position a b \<and> (\<forall>i. int i < ply b \<longrightarrow> hist a i = hist b i)"

text \<open>
  The positions the program reaches: the start position (after any earlier use of the board),
  a generated legal move applied (\<open>perft\<close>, the search, the \<open>go\<close> command), a move
  entered in the \<open>play\<close> loop applied, and the most recently applied move reversed. An
  entered move is the parsed one, whose flags are empty; \<open>legal_in_pos\<close> accepts it when a
  generated move has the same origin, destination and promotion piece.
\<close>

inductive reachable :: "Board \<Rightarrow> bool" where
  start: "reachable (snd (loadFEN b0 ''startpos''))"
| make: "reachable b \<Longrightarrow> generateMoves b = Some mv \<Longrightarrow> m \<in> set mv \<Longrightarrow> makeMove b m = Some b'
          \<Longrightarrow> reachable b'"
| enter: "reachable b \<Longrightarrow> generateMoves b = Some mv \<Longrightarrow> x \<in> set mv
          \<Longrightarrow> makeMove b (mk_move (from_sq x) (to_sq x) (promo x) 0) = Some b'
          \<Longrightarrow> reachable b'"
| unmake: "reachable b \<Longrightarrow> 0 < ply b
          \<Longrightarrow> unmakeMove b (last_mv (hist b (nat (ply b - 1)))) = Some b' \<Longrightarrow> reachable b'"

text \<open>What the generator guarantees about a pseudo-legal move, as far as \<open>makeMove\<close> needs it.\<close>

definition own_piece :: "Color \<Rightarrow> nat \<Rightarrow> bool" where
  "own_piece c p = (if c = WHITE then p < 6 else 6 \<le> p \<and> p < 12)"

definition plain_ok :: "Board \<Rightarrow> Move \<Rightarrow> bool" where
  "plain_ok b m \<longleftrightarrow>
     (\<exists>p. own_piece (stm b) p \<and> has (pcs b) p (from_sq m)
        \<and> (p = WP \<longrightarrow>
             to_sq m = from_sq m + 8 \<or> to_sq m = from_sq m + 7 \<or> to_sq m = from_sq m + 9
             \<or> (to_sq m = from_sq m + 16 \<and> 8 \<le> from_sq m \<and> from_sq m \<le> 15
                 \<and> vacant (pcs b) (from_sq m + 8) \<and> vacant (pcs b) (to_sq m)))
        \<and> (p = BP \<longrightarrow>
             to_sq m + 8 = from_sq m \<or> to_sq m + 7 = from_sq m \<or> to_sq m + 9 = from_sq m
             \<or> (to_sq m + 16 = from_sq m \<and> 48 \<le> from_sq m \<and> from_sq m \<le> 55
                 \<and> vacant (pcs b) (to_sq m + 8) \<and> vacant (pcs b) (to_sq m))))"

definition ep_move_ok :: "Board \<Rightarrow> Move \<Rightarrow> bool" where
  "ep_move_ok b m \<longleftrightarrow>
     epSquare b \<noteq> - 1 \<and> int (to_sq m) = epSquare b
     \<and> has (pcs b) (if stm b = WHITE then WP else BP) (from_sq m)
     \<and> (if stm b = WHITE then to_sq m = from_sq m + 7 \<or> to_sq m = from_sq m + 9
          else to_sq m + 7 = from_sq m \<or> to_sq m + 9 = from_sq m)"

definition castle_ok :: "Board \<Rightarrow> Move \<Rightarrow> bool" where
  "castle_ok b m \<longleftrightarrow>
     (stm b = WHITE \<and> from_sq m = 4 \<and> has (pcs b) WK 4
        \<and> (to_sq m = 6 \<and> vacant (pcs b) 5 \<and> vacant (pcs b) 6 \<and> has (pcs b) WR 7
            \<or> to_sq m = 2 \<and> vacant (pcs b) 3 \<and> vacant (pcs b) 2 \<and> has (pcs b) WR 0))
     \<or> (stm b = BLACK \<and> from_sq m = 60 \<and> has (pcs b) BK 60
        \<and> (to_sq m = 62 \<and> vacant (pcs b) 61 \<and> vacant (pcs b) 62 \<and> has (pcs b) BR 63
            \<or> to_sq m = 58 \<and> vacant (pcs b) 59 \<and> vacant (pcs b) 58 \<and> has (pcs b) BR 56))"

definition pseudo_ok :: "Board \<Rightarrow> Move \<Rightarrow> bool" where
  "pseudo_ok b m \<longleftrightarrow>
     promo m = 0 \<and> from_sq m < 64 \<and> to_sq m < 64
     \<and> (flags m = 0 \<and> plain_ok b m
         \<or> flags m = MF_ENPASSANT OR MF_CAPTURE \<and> ep_move_ok b m
         \<or> flags m = MF_CASTLE \<and> castle_ok b m)"

text \<open>
  The same positions with their history made explicit: a played board agrees with the start
  position or with the result of a pseudo-legal move on a played board.
\<close>

inductive played :: "Board \<Rightarrow> bool" where
  p_start: "agree (snd (loadFEN b0 ''startpos'')) b \<Longrightarrow> played b"
| p_make: "played b0 \<Longrightarrow> pseudo_ok b0 m \<Longrightarrow> makeMove b0 m = Some b1 \<Longrightarrow> agree b1 b
          \<Longrightarrow> played b"

text \<open>
  \<open>patched ps ps' asg\<close>: the squares listed in \<open>asg\<close> have the given content in \<open>ps'\<close>
  (12 for empty), and every other square is as in \<open>ps\<close>.
\<close>

definition patched :: "Bitboard list \<Rightarrow> Bitboard list \<Rightarrow> (nat \<times> nat) list \<Rightarrow> bool" where
  "patched ps ps' asg \<longleftrightarrow>
     (\<forall>x<12. \<forall>n. has ps' x n = (case map_of asg n of Some y \<Rightarrow> x = y | None \<Rightarrow> has ps x n))"


text \<open>
  A two-square pawn push, as \<open>makeMove\<close> recognises it, and the square it skips.
\<close>

definition double_push :: "Board \<Rightarrow> Move \<Rightarrow> bool" where
  "double_push b m \<longleftrightarrow>
     promo m = 0 \<and> \<not> is_castle m
     \<and> (movingPiece b m = WP \<and> to_sq m = from_sq m + 16
         \<or> movingPiece b m = BP \<and> from_sq m = to_sq m + 16)"

definition skipped :: "Move \<Rightarrow> int" where
  "skipped m = (int (from_sq m) + int (to_sq m)) div 2"

text \<open>
  A line of play: every move is pseudo-legal where it is played and does not leave the mover
  in check, which is how \<open>generateMoves\<close> selects its output.
\<close>

fun legal_line :: "Board \<Rightarrow> Move list \<Rightarrow> bool" where
  "legal_line b [] = True"
| "legal_line b (m # ms) =
    (pcs b ! (if stm b = WHITE then WK else BK) \<noteq> 0 \<and> 0 \<le> ply b \<and> ply b < 512
     \<and> m \<in> set (pseudoMoves b)
     \<and> (case makeMove b m of None \<Rightarrow> False
         | Some t \<Rightarrow> \<not> inCheck t (stm b) \<and> legal_line t ms))"

text \<open>The position after a line of play from the start.\<close>

definition after :: "Move list \<Rightarrow> Board" where
  "after ms = the (loopM makeMove ms startpos)"

text \<open>1. e4 d5: white can capture on d5 (\<open>e4\<close> is square 28, \<open>d5\<close> is square 35).\<close>

definition cap_pos :: Board where
  "cap_pos = after [mk_move 12 28 0 0, mk_move 51 35 0 0]"

text \<open>1. f3 e5 2. g4 Qh4: white is checkmated.\<close>

definition mate_pos :: Board where
  "mate_pos = after [mk_move 13 21 0 0, mk_move 52 36 0 0, mk_move 14 30 0 0, mk_move 59 31 0 0]"

text \<open>
  1. d4 d5 2. Bf4 Bf5 3. Qd3 Qd6: white's \<open>c1\<close> and \<open>d1\<close> are empty, the knight is still on
  \<open>b1\<close>.
\<close>

definition castle_pos :: Board where
  "castle_pos = after [mk_move 11 27 0 0, mk_move 51 35 0 0, mk_move 2 29 0 0,
     mk_move 58 37 0 0, mk_move 3 19 0 0, mk_move 59 43 0 0]"

text \<open>
  1. a4 b5 2. axb5 a6 3. bxa6 Bb7 4. axb7 h6: a white pawn on \<open>b7\<close> (square 49) attacks the
  rook on \<open>a8\<close> (square 56).
\<close>

definition prom_pos :: Board where
  "prom_pos = after [mk_move 8 24 0 0, mk_move 49 33 0 0, mk_move 24 33 0 0, mk_move 48 40 0 0,
     mk_move 33 40 0 0, mk_move 58 49 0 0, mk_move 40 49 0 0, mk_move 55 47 0 0]"

text \<open>The number of trailing zero bits of a binary numeral.\<close>

fun ctz_num :: "num \<Rightarrow> nat" where
  "ctz_num num.One = 0"
| "ctz_num (num.Bit0 k) = 1 + ctz_num k"
| "ctz_num (num.Bit1 k) = 0"


section \<open>Bits, squares and pieces\<close>

lemma bit_sq_mask: "bit (sq_mask s) n \<longleftrightarrow> n = nat s \<and> n < 64"
  by (auto simp: sq_mask_def bit_simps)

lemma and_sq_mask_neq0: "(w AND sq_mask s \<noteq> 0) = bit w (nat s)"
proof -
  have "(w AND sq_mask s \<noteq> 0) = (\<exists>n. bit (w AND sq_mask s) n)"
    by (metis bit_0_eq bit_eq_iff bot_apply bot_bool_def)
  also have "\<dots> = bit w (nat s)"
    by (auto simp: bit_and_iff bit_sq_mask dest: bit_imp_le_length)
  finally show ?thesis .
qed

lemma and_sq_mask_eq0: "(w AND sq_mask s = 0) = (\<not> bit w (nat s))"
  using and_sq_mask_neq0 [of w s] by blast

lemma length_clr [simp]: "length (clr ps p s) = length ps"
  by (simp add: clr_def)

lemma length_put [simp]: "length (put ps p s) = length ps"
  by (simp add: put_def)

lemma has_clr: "p < length ps \<Longrightarrow> has (clr ps p s) q n = (has ps q n \<and> \<not> (q = p \<and> n = nat s))"
  by (auto simp: has_def clr_def nth_list_update bit_and_iff bit_not_iff bit_sq_mask dest: bit_imp_le_length)

lemma has_put: "p < length ps \<Longrightarrow> has (put ps p s) q n = (has ps q n \<or> (q = p \<and> n = nat s \<and> n < 64))"
  by (auto simp: has_def put_def nth_list_update bit_or_iff bit_sq_mask)

lemma has_lt64: "has ps p n \<Longrightarrow> n < 64"
  by (auto simp: has_def dest: bit_imp_le_length)

lemma ctz_spec: "\<exists>i<n. bit w i \<Longrightarrow> ctz n w < n \<and> bit w (ctz n w) \<and> (\<forall>j < ctz n w. \<not> bit w j)"
proof (induction n arbitrary: w)
  case 0
  then show ?case by simp
next
  case (Suc n)
  show ?case
  proof (cases "bit w 0")
    case True
    then show ?thesis by simp
  next
    case False
    from Suc.prems obtain i where i: "i < Suc n" "bit w i" by blast
    with False have "i \<noteq> 0" by (cases i) auto
    then obtain k where k: "i = Suc k" by (cases i) auto
    with i have "k < n" "bit (drop_bit 1 w) k"
      by (auto simp: bit_drop_bit_eq)
    then have IH: "ctz n (drop_bit 1 w) < n \<and> bit (drop_bit 1 w) (ctz n (drop_bit 1 w)) \<and> (\<forall>j < ctz n (drop_bit 1 w). \<not> bit (drop_bit 1 w) j)"
      using Suc.IH [of "drop_bit 1 w"] by blast
    show ?thesis
    proof (intro conjI allI impI)
      show "ctz (Suc n) w < Suc n" using False IH by simp
      show "bit w (ctz (Suc n) w)" using False IH by (simp add: bit_drop_bit_eq)
      fix j assume "j < ctz (Suc n) w"
      then show "\<not> bit w j" using False IH
        by (cases j) (auto simp: bit_drop_bit_eq)
    qed
  qed
qed

lemma lsb_spec:
  assumes "w \<noteq> 0"
  shows "0 \<le> lsb w" "lsb w < 64" "bit w (nat (lsb w))" "\<forall>j < nat (lsb w). \<not> bit w j"
proof -
  from assms obtain i where "bit w i"
    by (auto simp: bit_eq_iff)
  then have "\<exists>i<64. bit w i"
    using bit_imp_le_length [of w i] by auto
  from ctz_spec [OF this] show "0 \<le> lsb w" "lsb w < 64" "bit w (nat (lsb w))" "\<forall>j < nat (lsb w). \<not> bit w j"
    by (auto simp: lsb_def)
qed

lemma lsb_unique:
  assumes "bit w n" "\<forall>j<n. \<not> bit w j"
  shows "lsb w = int n"
proof -
  from assms have nz: "w \<noteq> 0" by auto
  note s = lsb_spec [OF nz]
  have "\<not> nat (lsb w) < n" using assms s by auto
  moreover have "\<not> n < nat (lsb w)" using assms s by auto
  ultimately show ?thesis using s by auto
qed

lemma lsb_sq_mask: "0 \<le> s \<Longrightarrow> s < 64 \<Longrightarrow> lsb (sq_mask s) = s"
  using lsb_unique [of "sq_mask s" "nat s"] by (auto simp: bit_sq_mask)

lemma squares_sound: "t \<in> set (squares w) \<Longrightarrow> 0 \<le> t \<and> t < 64 \<and> bit w (nat t)"
proof (induction w rule: squares.induct)
  case (1 m)
  show ?case
  proof (cases "m = 0")
    case True
    with "1.prems" show ?thesis by (subst (asm) squares.simps) simp
  next
    case False
    note s = lsb_spec [OF False]
    have hd: "lsb (fst (poplsb m)) = lsb m"
      using s by (simp add: poplsb_def Let_def lsb_sq_mask)
    from "1.prems" False have "t = lsb m \<or> t \<in> set (squares (snd (poplsb m)))"
      by (subst (asm) squares.simps) (auto simp: hd)
    then show ?thesis
    proof
      assume "t = lsb m"
      with s show ?thesis by simp
    next
      assume "t \<in> set (squares (snd (poplsb m)))"
      with "1.IH" False have "0 \<le> t \<and> t < 64 \<and> bit (snd (poplsb m)) (nat t)" by blast
      then show ?thesis by (simp add: poplsb_def Let_def bit_and_iff)
    qed
  qed
qed


lemma piece_at_cases:
  assumes "length (pcs b) = 12"
  shows "(piece_at b s < 12 \<and> has (pcs b) (piece_at b s) (nat s)
            \<and> (\<forall>q < piece_at b s. \<not> has (pcs b) q (nat s)))
         \<or> (piece_at b s = NO_PIECE \<and> vacant (pcs b) (nat s))"
proof (cases "find (\<lambda>p. pcs b ! p AND sq_mask s \<noteq> 0) [0..<12]")
  case None
  then have "vacant (pcs b) (nat s)"
    by (auto simp: find_None_iff vacant_def has_def and_sq_mask_neq0)
  with None show ?thesis by (simp add: piece_at_def)
next
  case (Some p)
  then have "p < 12" "has (pcs b) p (nat s)" "\<forall>q<p. \<not> has (pcs b) q (nat s)"
    by (auto simp: find_Some_iff has_def and_sq_mask_neq0)
  with Some show ?thesis by (simp add: piece_at_def)
qed

lemma disjoint_has: "disjoint_pcs ps \<Longrightarrow> p < 12 \<Longrightarrow> q < 12 \<Longrightarrow> has ps p n \<Longrightarrow> has ps q n \<Longrightarrow> p = q"
proof (rule ccontr)
  assume a: "disjoint_pcs ps" "p < 12" "q < 12" "has ps p n" "has ps q n" "p \<noteq> q"
  then have "ps ! p AND ps ! q = 0" by (simp add: disjoint_pcs_def)
  then have "\<not> bit (ps ! p AND ps ! q) n" by simp
  with a show False by (simp add: has_def bit_and_iff)
qed

lemma disjoint_pcsI: "(\<And>p q n. p < 12 \<Longrightarrow> q < 12 \<Longrightarrow> has ps p n \<Longrightarrow> has ps q n \<Longrightarrow> p = q) \<Longrightarrow> disjoint_pcs ps"
  unfolding disjoint_pcs_def has_def
  by (auto simp: bit_eq_iff bit_and_iff)

lemma piece_at_has:
  assumes "length (pcs b) = 12" "disjoint_pcs (pcs b)" "p < 12" "has (pcs b) p (nat s)"
  shows "piece_at b s = p"
  using piece_at_cases [OF assms(1), of s] assms disjoint_has [OF assms(2), of p "piece_at b s" "nat s"]
  by (auto simp: vacant_def)

lemma piece_at_vacant:
  assumes "length (pcs b) = 12" "vacant (pcs b) (nat s)"
  shows "piece_at b s = NO_PIECE"
  using piece_at_cases [OF assms(1), of s] assms by (auto simp: vacant_def)

lemma piece_at_le: "piece_at b s \<le> 12"
  by (auto simp: piece_at_def NO_PIECE_def find_Some_iff split: option.splits)

section \<open>The fields after a move\<close>

lemma set_occ_simps [simp]:
  "pcs (set_occ b) = pcs b" "stm (set_occ b) = stm b" "ply (set_occ b) = ply b"
  "hist (set_occ b) = hist b" "epSquare (set_occ b) = epSquare b"
  "castleRights (set_occ b) = castleRights b"
  "occ (set_occ b) = [whiteOcc (pcs b), blackOcc (pcs b)]"
  "occAll (set_occ b) = whiteOcc (pcs b) OR blackOcc (pcs b)"
  by (simp_all add: set_occ_def Let_def whiteOcc_def blackOcc_def)

lemma length_castle_rook [simp]: "length (castle_rook ps c t) = length ps"
  by (simp add: castle_rook_def)

lemma length_uncastle_rook [simp]: "length (uncastle_rook ps c t) = length ps"
  by (simp add: uncastle_rook_def)

lemma length_makeMove_pcs [simp]: "length (makeMove_pcs b m) = length (pcs b)"
  by (simp add: makeMove_pcs_def Let_def)

lemma length_unmakeMove_pcs [simp]: "length (unmakeMove_pcs b m) = length (pcs b)"
  by (simp add: unmakeMove_pcs_def Let_def)

lemma makeMove_fields:
  assumes "makeMove b m = Some b'"
  shows "makeMove_defined b m" "pcs b' = makeMove_pcs b m" "epSquare b' = makeMove_ep b m"
    "ply b' = ply b + 1" "stm b' = flip (stm b)"
    "hist b' = (hist b)(nat (ply b) := \<lparr>last_mv = m, captured = int (capturedPiece b m),
        prevEpSquare = epSquare b, prevCastleRights = castleRights b\<rparr>)"
    "occ b' = [whiteOcc (pcs b'), blackOcc (pcs b')]"
    "occAll b' = whiteOcc (pcs b') OR blackOcc (pcs b')"
    "castleRights b' = update_rights (castleRights b) (movingPiece b m) (from_sq m)
                                     (capturedPiece b m) (to_sq m)"
  using assms by (auto simp: makeMove_def split: if_splits)

lemma unmakeMove_fields:
  assumes "unmakeMove b m = Some b'"
  shows "unmakeMove_defined b m" "pcs b' = unmakeMove_pcs b m"
    "epSquare b' = prevEpSquare (hist b (nat (ply b - 1)))"
    "castleRights b' = prevCastleRights (hist b (nat (ply b - 1)))"
    "ply b' = ply b - 1" "stm b' = flip (stm b)" "hist b' = hist b"
    "occ b' = [whiteOcc (pcs b'), blackOcc (pcs b')]"
    "occAll b' = whiteOcc (pcs b') OR blackOcc (pcs b')"
  using assms by (auto simp: unmakeMove_def split: if_splits)

lemma pcs_eqI:
  assumes "length a = 12" "length b = 12" "\<And>x n. x < 12 \<Longrightarrow> has a x n = has b x n"
  shows "a = b"
proof (rule nth_equalityI)
  show "length a = length b" using assms by simp
next
  fix i assume "i < length a"
  then have "i < 12" using assms by simp
  then have "\<And>n. bit (a ! i) n = bit (b ! i) n" using assms(3) [of i] by (simp add: has_def)
  then show "a ! i = b ! i" by (simp add: bit_eq_iff)
qed

lemma flip_flip [simp]: "flip (flip c) = c"
  by (cases c) (simp_all add: flip_def)

lemma flags_plain [simp]: "flags m = 0 \<Longrightarrow> \<not> is_ep m" "flags m = 0 \<Longrightarrow> \<not> is_castle m"
  by (simp_all add: is_ep_def is_castle_def)

lemma flags_ep [simp]: "flags m = MF_ENPASSANT OR MF_CAPTURE \<Longrightarrow> is_ep m"
  "flags m = MF_ENPASSANT OR MF_CAPTURE \<Longrightarrow> \<not> is_castle m"
  by (simp_all add: is_ep_def is_castle_def flag_defs)

lemma flags_castle [simp]: "flags m = MF_CASTLE \<Longrightarrow> \<not> is_ep m" "flags m = MF_CASTLE \<Longrightarrow> is_castle m"
  by (simp_all add: is_ep_def is_castle_def flag_defs)

lemma vacantD: "vacant ps n \<Longrightarrow> p < 12 \<Longrightarrow> \<not> has ps p n"
  by (simp add: vacant_def)

lemma own_piece_lt: "own_piece c p \<Longrightarrow> p < 12"
  by (auto simp: own_piece_def split: if_splits)

text \<open>The pieces after a plain move, square by square.\<close>

lemma has_make_plain:
  assumes len: "length (pcs b) = 12" and dj: "disjoint_pcs (pcs b)"
    and m: "promo m = 0" "flags m = 0" "to_sq m < 64"
    and p: "p < 12" "has (pcs b) p (from_sq m)"
    and x: "x < 12"
  shows "has (makeMove_pcs b m) x n
          = (if n = to_sq m then x = p
             else if n = from_sq m then False
             else has (pcs b) x n)"
proof -
  have mp: "movingPiece b m = p"
    using piece_at_has [OF len dj p(1), of "int (from_sq m)"] p(2) by (simp add: movingPiece_def)
  have cs: "capSq (stm b) m = int (to_sq m)" using m by (simp add: capSq_def)
  consider (cap) "capturedPiece b m < 12" "has (pcs b) (capturedPiece b m) (to_sq m)"
    | (nocap) "capturedPiece b m = NO_PIECE" "vacant (pcs b) (to_sq m)"
    using piece_at_cases [OF len, of "int (to_sq m)"] m by (auto simp: capturedPiece_def)
  then show ?thesis
  proof cases
    case cap
    then show ?thesis
      using m p x len disjoint_has [OF dj _ _ _ cap(2), of x] disjoint_has [OF dj _ _ _ p(2), of x]
      by (auto simp: makeMove_pcs_def Let_def mp cs has_put has_clr NO_PIECE_def)
  next
    case nocap
    then show ?thesis
      using m p x len disjoint_has [OF dj _ _ _ p(2), of x] vacantD [OF nocap(2)]
      by (auto simp: makeMove_pcs_def Let_def mp cs has_put has_clr)
  qed
qed

lemma has_make_ep:
  assumes len: "length (pcs b) = 12" and dj: "disjoint_pcs (pcs b)"
    and m: "promo m = 0" "flags m = MF_ENPASSANT OR MF_CAPTURE" "to_sq m < 64"
    and p: "P < 12" "has (pcs b) P (from_sq m)"
    and v: "vacant (pcs b) (to_sq m)"
    and e: "capturedPiece b m = E" "E < 12" "capSq (stm b) m = int cs" "has (pcs b) E cs"
    and x: "x < 12"
  shows "has (makeMove_pcs b m) x n
          = (if n = to_sq m then x = P
             else if n = from_sq m \<or> n = cs then False
             else has (pcs b) x n)"
proof -
  have mp: "movingPiece b m = P"
    using piece_at_has [OF len dj p(1), of "int (from_sq m)"] p(2) by (simp add: movingPiece_def)
  show ?thesis
    using m p x e len disjoint_has [OF dj _ _ _ e(4), of x] disjoint_has [OF dj _ _ _ p(2), of x]
      vacantD [OF v]
    by (auto simp: makeMove_pcs_def Let_def mp has_put has_clr NO_PIECE_def)
qed

lemma has_make_castle:
  assumes len: "length (pcs b) = 12" and dj: "disjoint_pcs (pcs b)"
    and m: "promo m = 0" "flags m = MF_CASTLE" "to_sq m < 64"
    and k: "K < 12" "has (pcs b) K (from_sq m)"
    and v: "vacant (pcs b) (to_sq m)" "vacant (pcs b) rt"
    and r: "R < 12" "has (pcs b) R rf" "rt < 64" "rt \<noteq> to_sq m"
    and c: "\<And>ps0. castle_rook ps0 (stm b) (to_sq m) = put (clr ps0 R (int rf)) R (int rt)"
    and x: "x < 12"
  shows "has (makeMove_pcs b m) x n
          = (if n = to_sq m then x = K
             else if n = rt then x = R
             else if n = from_sq m \<or> n = rf then False
             else has (pcs b) x n)"
proof -
  have mp: "movingPiece b m = K"
    using piece_at_has [OF len dj k(1), of "int (from_sq m)"] k(2) by (simp add: movingPiece_def)
  have cp: "capturedPiece b m = NO_PIECE"
    using piece_at_vacant [OF len, of "int (to_sq m)"] v m by (simp add: capturedPiece_def)
  show ?thesis
    using m k x r len disjoint_has [OF dj _ _ _ r(2), of x] disjoint_has [OF dj _ _ _ k(2), of x]
      vacantD [OF v(1)] vacantD [OF v(2)]
    by (auto simp: makeMove_pcs_def Let_def mp cp c has_put has_clr)
qed

section \<open>Facts about en-passant and castling moves\<close>

lemma Inv_len: "Inv b \<Longrightarrow> length (pcs b) = 12" and Inv_dj: "Inv b \<Longrightarrow> disjoint_pcs (pcs b)"
  and Inv_ep: "Inv b \<Longrightarrow> ep_ok b"
  by (simp_all add: Inv_def)

lemma makeMove_last:
  assumes "makeMove b m = Some b'"
  shows "hist b' (nat (ply b' - 1)) = \<lparr>last_mv = m, captured = int (capturedPiece b m),
        prevEpSquare = epSquare b, prevCastleRights = castleRights b\<rparr>"
  using makeMove_fields [OF assms] by simp

lemma piece_at_le12: "piece_at b s \<le> 12"
  by (auto simp: piece_at_def NO_PIECE_def find_Some_iff split: option.splits)

text \<open>The facts about an en-passant move that the invariant supplies.\<close>

lemma ep_facts:
  assumes inv: "Inv b" and fl: "flags m = MF_ENPASSANT OR MF_CAPTURE" and ok: "ep_move_ok b m"
  obtains P E cs where "P < 12" "E < 12" "has (pcs b) P (from_sq m)" "vacant (pcs b) (to_sq m)"
    "capturedPiece b m = E" "capSq (stm b) m = int cs" "has (pcs b) E cs" "cs < 64"
    "P = WP \<or> P = BP" "int (to_sq m) - int (from_sq m) \<noteq> 16" "int (from_sq m) - int (to_sq m) \<noteq> 16"
    "P \<noteq> E"
proof (cases "stm b")
  case WHITE
  with ok Inv_ep [OF inv] have e: "40 \<le> epSquare b" "epSquare b \<le> 47"
    "vacant (pcs b) (nat (epSquare b))" "has (pcs b) BP (nat (epSquare b - 8))"
    "int (to_sq m) = epSquare b" "has (pcs b) WP (from_sq m)"
    "to_sq m = from_sq m + 7 \<or> to_sq m = from_sq m + 9"
    by (auto simp: ep_ok_def ep_move_ok_def)
  have t: "nat (epSquare b) = to_sq m" using e by simp
  show ?thesis
  proof (rule that [where P=WP and E=BP and cs="to_sq m - 8"])
    show "capSq (stm b) m = int (to_sq m - 8)" using WHITE fl e by (simp add: capSq_def)
    show "has (pcs b) BP (to_sq m - 8)" using e by (simp add: nat_diff_distrib flip: t)
  qed (use e WHITE fl t in \<open>auto simp: capturedPiece_def piece_defs\<close>)
next
  case BLACK
  with ok Inv_ep [OF inv] have e: "16 \<le> epSquare b" "epSquare b \<le> 23"
    "vacant (pcs b) (nat (epSquare b))" "has (pcs b) WP (nat (epSquare b + 8))"
    "int (to_sq m) = epSquare b" "has (pcs b) BP (from_sq m)"
    "to_sq m + 7 = from_sq m \<or> to_sq m + 9 = from_sq m"
    by (auto simp: ep_ok_def ep_move_ok_def)
  have t: "nat (epSquare b) = to_sq m" using e by simp
  show ?thesis
  proof (rule that [where P=BP and E=WP and cs="to_sq m + 8"])
    show "capSq (stm b) m = int (to_sq m + 8)" using BLACK fl e by (simp add: capSq_def)
    show "has (pcs b) WP (to_sq m + 8)" using e by (simp add: nat_add_distrib flip: t)
  qed (use e BLACK fl t in \<open>auto simp: capturedPiece_def piece_defs\<close>)
qed

lemma castle_facts:
  assumes ok: "castle_ok b m"
  obtains K R rf rt where "K < 12" "R < 12" "has (pcs b) K (from_sq m)"
    "vacant (pcs b) (to_sq m)" "vacant (pcs b) rt" "has (pcs b) R rf" "rt < 64" "rt \<noteq> to_sq m"
    "rf < 64"
    "\<And>ps0. castle_rook ps0 (stm b) (to_sq m) = put (clr ps0 R (int rf)) R (int rt)"
    "\<And>ps0. uncastle_rook ps0 (stm b) (to_sq m) = put (clr ps0 R (int rt)) R (int rf)"
    "K \<noteq> R"
proof -
  from ok consider
      (wk) "stm b = WHITE" "from_sq m = 4" "has (pcs b) WK 4" "to_sq m = 6" "vacant (pcs b) 5" "vacant (pcs b) 6" "has (pcs b) WR 7"
    | (wq) "stm b = WHITE" "from_sq m = 4" "has (pcs b) WK 4" "to_sq m = 2" "vacant (pcs b) 3" "vacant (pcs b) 2" "has (pcs b) WR 0"
    | (bk) "stm b = BLACK" "from_sq m = 60" "has (pcs b) BK 60" "to_sq m = 62" "vacant (pcs b) 61" "vacant (pcs b) 62" "has (pcs b) BR 63"
    | (bq) "stm b = BLACK" "from_sq m = 60" "has (pcs b) BK 60" "to_sq m = 58" "vacant (pcs b) 59" "vacant (pcs b) 58" "has (pcs b) BR 56"
    by (auto simp: castle_ok_def)
  then show ?thesis
  proof cases
    case wk
    show ?thesis by (rule that [where K=WK and R=WR and rf=7 and rt=5]) (use wk in \<open>auto simp: castle_rook_def uncastle_rook_def piece_defs\<close>)
  next
    case wq
    show ?thesis by (rule that [where K=WK and R=WR and rf=0 and rt=3]) (use wq in \<open>auto simp: castle_rook_def uncastle_rook_def piece_defs\<close>)
  next
    case bk
    show ?thesis by (rule that [where K=BK and R=BR and rf=63 and rt=61]) (use bk in \<open>auto simp: castle_rook_def uncastle_rook_def piece_defs\<close>)
  next
    case bq
    show ?thesis by (rule that [where K=BK and R=BR and rf=56 and rt=59]) (use bq in \<open>auto simp: castle_rook_def uncastle_rook_def piece_defs\<close>)
  qed
qed

section \<open>The shape of the position after a pseudo-legal move\<close>

lemma own_piece_WP: "own_piece c WP \<Longrightarrow> c = WHITE" and own_piece_BP: "own_piece c BP \<Longrightarrow> c = BLACK"
  by (auto simp: own_piece_def piece_defs split: if_splits intro: Color.exhaust)

lemma patched_disjoint:
  assumes "patched ps ps' asg" "disjoint_pcs ps"
  shows "disjoint_pcs ps'"
proof (rule disjoint_pcsI)
  fix p q n assume a: "p < 12" "q < 12" "has ps' p n" "has ps' q n"
  show "p = q"
  proof (cases "map_of asg n")
    case None
    with a assms(1) have "has ps p n" "has ps q n" by (auto simp: patched_def)
    with a assms(2) show ?thesis using disjoint_has by blast
  next
    case (Some y)
    with a assms(1) show ?thesis by (auto simp: patched_def)
  qed
qed

lemma patched_has: "patched ps ps' asg \<Longrightarrow> x < 12 \<Longrightarrow>
   has ps' x n = (case map_of asg n of Some y \<Rightarrow> x = y | None \<Rightarrow> has ps x n)"
  by (simp add: patched_def)

lemma plain_facts:
  assumes "plain_ok b m"
  obtains p where "own_piece (stm b) p" "p < 12" "has (pcs b) p (from_sq m)"
    "p = WP \<Longrightarrow> to_sq m = from_sq m + 16 \<Longrightarrow> stm b = WHITE \<and> 8 \<le> from_sq m \<and> from_sq m \<le> 15
                 \<and> vacant (pcs b) (from_sq m + 8) \<and> vacant (pcs b) (to_sq m)"
    "p = BP \<Longrightarrow> to_sq m + 16 = from_sq m \<Longrightarrow> stm b = BLACK \<and> 48 \<le> from_sq m \<and> from_sq m \<le> 55
                 \<and> vacant (pcs b) (to_sq m + 8) \<and> vacant (pcs b) (to_sq m)"
proof -
  from assms obtain p where p0: "own_piece (stm b) p" "has (pcs b) p (from_sq m)"
      and wp0: "p = WP \<longrightarrow>
             to_sq m = from_sq m + 8 \<or> to_sq m = from_sq m + 7 \<or> to_sq m = from_sq m + 9
             \<or> (to_sq m = from_sq m + 16 \<and> 8 \<le> from_sq m \<and> from_sq m \<le> 15
                 \<and> vacant (pcs b) (from_sq m + 8) \<and> vacant (pcs b) (to_sq m))"
      and bp0: "p = BP \<longrightarrow>
             to_sq m + 8 = from_sq m \<or> to_sq m + 7 = from_sq m \<or> to_sq m + 9 = from_sq m
             \<or> (to_sq m + 16 = from_sq m \<and> 48 \<le> from_sq m \<and> from_sq m \<le> 55
                 \<and> vacant (pcs b) (to_sq m + 8) \<and> vacant (pcs b) (to_sq m))"
      unfolding plain_ok_def by blast
  show ?thesis
  proof (rule that [of p])
    show "own_piece (stm b) p" "has (pcs b) p (from_sq m)" by fact+
    show "p < 12" using p0 own_piece_lt by blast
    show "stm b = WHITE \<and> 8 \<le> from_sq m \<and> from_sq m \<le> 15
                 \<and> vacant (pcs b) (from_sq m + 8) \<and> vacant (pcs b) (to_sq m)"
      if "p = WP" "to_sq m = from_sq m + 16"
      using wp0 that p0(1) own_piece_WP by auto
    show "stm b = BLACK \<and> 48 \<le> from_sq m \<and> from_sq m \<le> 55
                 \<and> vacant (pcs b) (to_sq m + 8) \<and> vacant (pcs b) (to_sq m)"
      if "p = BP" "to_sq m + 16 = from_sq m"
      using bp0 that p0(1) own_piece_BP by auto
  qed
qed

text \<open>The shape of the position after a pseudo-legal move.\<close>

lemma make_shape:
  assumes inv: "Inv b" and ok: "pseudo_ok b m"
  obtains (plain) p where "flags m = 0" "p < 12" "has (pcs b) p (from_sq m)" "movingPiece b m = p"
      "patched (pcs b) (makeMove_pcs b m) [(to_sq m, p), (from_sq m, 12)]"
  | (ep) P E cs where "flags m = MF_ENPASSANT OR MF_CAPTURE" "P < 12" "E < 12" "has (pcs b) P (from_sq m)"
      "movingPiece b m = P"
      "vacant (pcs b) (to_sq m)"
      "capturedPiece b m = E" "capSq (stm b) m = int cs" "has (pcs b) E cs" "cs < 64"
      "P = WP \<or> P = BP" "int (to_sq m) - int (from_sq m) \<noteq> 16" "int (from_sq m) - int (to_sq m) \<noteq> 16"
      "P \<noteq> E"
      "patched (pcs b) (makeMove_pcs b m) [(to_sq m, P), (from_sq m, 12), (cs, 12)]"
  | (castle) K R rf rt where "flags m = MF_CASTLE" "K < 12" "R < 12" "has (pcs b) K (from_sq m)"
      "movingPiece b m = K" "capturedPiece b m = NO_PIECE"
      "vacant (pcs b) (to_sq m)" "vacant (pcs b) rt" "has (pcs b) R rf" "rt < 64" "rt \<noteq> to_sq m"
      "rf < 64"
      "\<And>ps0. uncastle_rook ps0 (stm b) (to_sq m) = put (clr ps0 R (int rt)) R (int rf)"
      "K \<noteq> R"
      "patched (pcs b) (makeMove_pcs b m) [(to_sq m, K), (rt, R), (from_sq m, 12), (rf, 12)]"
proof -
  note len = Inv_len [OF inv] and dj = Inv_dj [OF inv]
  from ok have m: "promo m = 0" "from_sq m < 64" "to_sq m < 64" by (auto simp: pseudo_ok_def)
  from ok consider (a) "flags m = 0" "plain_ok b m"
    | (b) "flags m = MF_ENPASSANT OR MF_CAPTURE" "ep_move_ok b m"
    | (c) "flags m = MF_CASTLE" "castle_ok b m"
    by (auto simp: pseudo_ok_def)
  then show ?thesis
  proof cases
    case a
    show ?thesis
    proof (rule plain_facts [OF a(2)])
      fix p assume p: "p < 12" "has (pcs b) p (from_sq m)"
      have mp: "movingPiece b m = p"
        using piece_at_has [OF len dj p(1), of "int (from_sq m)"] p(2) by (simp add: movingPiece_def)
      have "patched (pcs b) (makeMove_pcs b m) [(to_sq m, p), (from_sq m, 12)]"
        unfolding patched_def using has_make_plain [OF len dj m(1) a(1) m(3) p] by simp
      with a(1) p mp show ?thesis by (rule plain)
    qed
  next
    case b
    show ?thesis
    proof (rule ep_facts [OF inv b])
      fix P E cs
      assume e: "P < 12" "E < 12" "has (pcs b) P (from_sq m)"
        "vacant (pcs b) (to_sq m)"
        "capturedPiece b m = E" "capSq (stm b) m = int cs" "has (pcs b) E cs" "cs < 64"
        "P = WP \<or> P = BP" "int (to_sq m) - int (from_sq m) \<noteq> 16" "int (from_sq m) - int (to_sq m) \<noteq> 16"
        "P \<noteq> E"
      have mp: "movingPiece b m = P"
        using piece_at_has [OF len dj e(1), of "int (from_sq m)"] e(3) by (simp add: movingPiece_def)
      have "patched (pcs b) (makeMove_pcs b m) [(to_sq m, P), (from_sq m, 12), (cs, 12)]"
        unfolding patched_def using has_make_ep [OF len dj m(1) b(1) m(3) e(1,3,4,5,2,6,7)] by simp
      with b(1) e(1,2,3) mp e(4-12) show ?thesis by (rule ep)
    qed
  next
    case c
    show ?thesis
    proof (rule castle_facts [OF c(2)])
      fix K R rf rt
      assume k: "K < 12" "R < 12" "has (pcs b) K (from_sq m)"
        "vacant (pcs b) (to_sq m)" "vacant (pcs b) rt" "has (pcs b) R rf" "rt < 64" "rt \<noteq> to_sq m"
        "rf < 64"
        "\<And>ps0. castle_rook ps0 (stm b) (to_sq m) = put (clr ps0 R (int rf)) R (int rt)"
        "\<And>ps0. uncastle_rook ps0 (stm b) (to_sq m) = put (clr ps0 R (int rt)) R (int rf)"
        "K \<noteq> R"
      have mp: "movingPiece b m = K"
        using piece_at_has [OF len dj k(1), of "int (from_sq m)"] k(3) by (simp add: movingPiece_def)
      have cp: "capturedPiece b m = NO_PIECE"
        using piece_at_vacant [OF len, of "int (to_sq m)"] k(4) c(1) by (simp add: capturedPiece_def)
      have "patched (pcs b) (makeMove_pcs b m) [(to_sq m, K), (rt, R), (from_sq m, 12), (rf, 12)]"
        unfolding patched_def using has_make_castle [OF len dj m(1) c(1) m(3) k(1,3,4,5,2,6,7,8,10)] by simp
      with c(1) k(1,2,3) mp cp k(4-9) k(11,12) show ?thesis by (rule castle)
    qed
  qed
qed

section \<open>makeMove preserves the invariant\<close>

lemma make_ep_ok_plain:
  assumes inv: "Inv b" and fl: "flags m = 0" "promo m = 0" and ok: "plain_ok b m"
    and mp: "movingPiece b m = p" "p < 12" "has (pcs b) p (from_sq m)"
    and pt: "patched (pcs b) ps' [(to_sq m, p), (from_sq m, 12)]"
  shows "(makeMove_ep b m = - 1)
       \<or> (flip (stm b) = WHITE \<and> 40 \<le> makeMove_ep b m \<and> makeMove_ep b m \<le> 47
          \<and> vacant ps' (nat (makeMove_ep b m)) \<and> has ps' BP (nat (makeMove_ep b m - 8)))
       \<or> (flip (stm b) = BLACK \<and> 16 \<le> makeMove_ep b m \<and> makeMove_ep b m \<le> 23
          \<and> vacant ps' (nat (makeMove_ep b m)) \<and> has ps' WP (nat (makeMove_ep b m + 8)))"
proof (rule plain_facts [OF ok])
  fix q
  assume q: "own_piece (stm b) q" "q < 12" "has (pcs b) q (from_sq m)"
    and wp: "q = WP \<Longrightarrow> to_sq m = from_sq m + 16 \<Longrightarrow> stm b = WHITE \<and> 8 \<le> from_sq m \<and> from_sq m \<le> 15
                 \<and> vacant (pcs b) (from_sq m + 8) \<and> vacant (pcs b) (to_sq m)"
    and bp: "q = BP \<Longrightarrow> to_sq m + 16 = from_sq m \<Longrightarrow> stm b = BLACK \<and> 48 \<le> from_sq m \<and> from_sq m \<le> 55
                 \<and> vacant (pcs b) (to_sq m + 8) \<and> vacant (pcs b) (to_sq m)"
  have qp: "q = p" using disjoint_has [OF Inv_dj [OF inv] q(2) mp(2) q(3) mp(3)] .
  note H = patched_has [OF pt]
  have "(movingPiece b m = WP \<and> int (to_sq m) - int (from_sq m) = 16)
      \<or> (movingPiece b m = BP \<and> int (from_sq m) - int (to_sq m) = 16)
      \<or> makeMove_ep b m = - 1"
    using fl by (simp add: makeMove_ep_def)
  then consider (w) "p = WP" "to_sq m = from_sq m + 16" | (k) "p = BP" "to_sq m + 16 = from_sq m"
    | (n) "makeMove_ep b m = - 1"
    unfolding mp(1) by fastforce
  then show ?thesis
  proof cases
    case w
    with wp qp have f: "stm b = WHITE" "8 \<le> from_sq m" "from_sq m \<le> 15" "vacant (pcs b) (from_sq m + 8)"
      by auto
    have e: "makeMove_ep b m = int (from_sq m) + 8"
      using w fl mp(1) by (simp add: makeMove_ep_def piece_defs)
    have "vacant ps' (from_sq m + 8)"
      using w vacantD [OF f(4)] H by (simp add: vacant_def)
    moreover have "has ps' WP (from_sq m + 16)"
      using w H [of WP "to_sq m"] by (simp add: WP_def)
    moreover have "nat (int (from_sq m) + 8) = from_sq m + 8" "nat (int (from_sq m) + 8 + 8) = from_sq m + 16"
      by auto
    ultimately show ?thesis using f unfolding e by (simp add: flip_def)
  next
    case k
    with bp qp have f: "stm b = BLACK" "48 \<le> from_sq m" "from_sq m \<le> 55" "vacant (pcs b) (to_sq m + 8)"
      by auto
    have e: "makeMove_ep b m = int (from_sq m) - 8"
      using k fl mp(1) by (auto simp add: makeMove_ep_def piece_defs)
    have "vacant ps' (to_sq m + 8)"
      using k vacantD [OF f(4)] H by (simp add: vacant_def)
    moreover have "has ps' BP (to_sq m)"
      using k H [of BP "to_sq m"] by (simp add: BP_def)
    moreover have "nat (int (from_sq m) - 8) = to_sq m + 8" "nat (int (from_sq m) - 8 - 8) = to_sq m"
      using k by auto
    ultimately show ?thesis using f unfolding e by (simp add: flip_def)
  next
    case n
    then show ?thesis by simp
  qed
qed

lemma make_Inv:
  assumes inv: "Inv b" and ok: "pseudo_ok b m" and mk: "makeMove b m = Some b'"
  shows "Inv b'"
proof -
  note len = Inv_len [OF inv] and dj = Inv_dj [OF inv]
  note f = makeMove_fields [OF mk]
  from ok have m: "promo m = 0" "from_sq m < 64" "to_sq m < 64" by (auto simp: pseudo_ok_def)
  have len': "length (pcs b') = 12" using f(2) len by simp
  have "disjoint_pcs (pcs b') \<and> ep_ok b'"
  proof (rule make_shape [OF inv ok], goal_cases)
    case (1 p)
    from ok 1(1) have po: "plain_ok b m" by (auto simp: pseudo_ok_def flag_defs)
    have "disjoint_pcs (pcs b')" unfolding f(2) using 1(5) dj by (rule patched_disjoint)
    moreover have "ep_ok b'"
      unfolding ep_ok_def f(2,3,5)
      by (rule make_ep_ok_plain [OF inv 1(1) m(1) po 1(4) 1(2) 1(3) 1(5)])
    ultimately show ?case ..
  next
    case (2 P E cs)
    have "disjoint_pcs (pcs b')" unfolding f(2) using 2(15) dj by (rule patched_disjoint)
    moreover have "makeMove_ep b m = - 1"
      using 2(1,5,11,12,13) m by (auto simp: makeMove_ep_def)
    then have "ep_ok b'" by (simp add: ep_ok_def f(3))
    ultimately show ?case ..
  next
    case (3 K R rf rt)
    have "disjoint_pcs (pcs b')" unfolding f(2) using 3(15) dj by (rule patched_disjoint)
    moreover have "makeMove_ep b m = - 1"
      using 3(1) m by (auto simp: makeMove_ep_def)
    then have "ep_ok b'" by (simp add: ep_ok_def f(3))
    ultimately show ?case ..
  qed
  then show ?thesis using len' f(2,7,8) by (simp add: Inv_def)
qed

section \<open>unmakeMove reverses makeMove\<close>

lemma has_unique: "disjoint_pcs ps \<Longrightarrow> p < 12 \<Longrightarrow> has ps p n \<Longrightarrow> x < 12 \<Longrightarrow> has ps x n = (x = p)"
  using disjoint_has by blast

lemma sq_neq_vacant: "has ps p a \<Longrightarrow> p < 12 \<Longrightarrow> vacant ps c \<Longrightarrow> a \<noteq> c"
  by (auto simp: vacant_def)

lemma sq_neq_pieces: "disjoint_pcs ps \<Longrightarrow> has ps p a \<Longrightarrow> p < 12 \<Longrightarrow> has ps q c \<Longrightarrow> q < 12 \<Longrightarrow> p \<noteq> q \<Longrightarrow> a \<noteq> c"
  using disjoint_has by blast

lemma roundtrip_finish:
  assumes inv: "Inv b" and mk: "makeMove b m = Some b'"
    and d: "unmakeMove_defined b' m" and e: "unmakeMove_pcs b' m = pcs b"
  shows "\<exists>b''. unmakeMove b' m = Some b'' \<and> agree b'' b"
proof -
  note f = makeMove_fields [OF mk]
  from f(1) have pl: "0 \<le> ply b" by (simp add: makeMove_defined_def)
  have h: "hist b' (nat (ply b' - 1)) = \<lparr>last_mv = m, captured = int (capturedPiece b m),
        prevEpSquare = epSquare b, prevCastleRights = castleRights b\<rparr>"
    by (rule makeMove_last [OF mk])
  have hh: "hist b' i = hist b i" if "int i < ply b" for i
    using that pl by (simp add: f(6))
  from inv have o: "occ b = [whiteOcc (pcs b), blackOcc (pcs b)]"
    "occAll b = whiteOcc (pcs b) OR blackOcc (pcs b)" by (simp_all add: Inv_def)
  show ?thesis
    using d e h hh o f(4,5)
    by (simp add: unmakeMove_def agree_def same_position_def)
qed

lemma roundtrip:
  assumes inv: "Inv b" and ok: "pseudo_ok b m" and mk: "makeMove b m = Some b'"
  shows "\<exists>b''. unmakeMove b' m = Some b'' \<and> agree b'' b"
proof -
  note len = Inv_len [OF inv] and dj = Inv_dj [OF inv]
  note f = makeMove_fields [OF mk]
  note inv' = make_Inv [OF inv ok mk]
  note len' = Inv_len [OF inv'] and dj' = Inv_dj [OF inv']
  from ok have m: "promo m = 0" "from_sq m < 64" "to_sq m < 64" by (auto simp: pseudo_ok_def)
  from f(1) have pl: "0 \<le> ply b" "ply b < 512"
    and cr: "capturedPiece b m \<noteq> NO_PIECE \<Longrightarrow> 0 \<le> capSq (stm b) m \<and> capSq (stm b) m < 64"
    by (simp_all add: makeMove_defined_def)
  have h: "hist b' (nat (ply b' - 1)) = \<lparr>last_mv = m, captured = int (capturedPiece b m),
        prevEpSquare = epSquare b, prevCastleRights = castleRights b\<rparr>"
    by (rule makeMove_last [OF mk])
  have h': "hist b' (nat (ply b)) = \<lparr>last_mv = m, captured = int (capturedPiece b m),
        prevEpSquare = epSquare b, prevCastleRights = castleRights b\<rparr>"
    by (simp add: f(6))
  have c12: "capturedPiece b m \<le> 12"
    using piece_at_le12 [of b "int (to_sq m)"] by (simp add: capturedPiece_def piece_defs)
  have rs: "restored b' = (capturedPiece b m \<noteq> NO_PIECE)"
    by (simp add: restored_def h NO_PIECE_def)
  have cap: "nat (captured (hist b' (nat (ply b' - 1)))) = capturedPiece b m"
    by (simp add: h)
  have side: "flip (stm b') = stm b" by (simp add: f(5))
  have "unmakeMove_defined b' m \<and> unmakeMove_pcs b' m = pcs b"
  proof (rule make_shape [OF inv ok], goal_cases)
    case (1 p)
    note pt = patched_has [OF 1(5) [folded f(2)]]
    have pto: "piece_at b' (int (to_sq m)) = p"
      using piece_at_has [OF len' dj' 1(2), of "int (to_sq m)"] pt [OF 1(2), of "to_sq m"] by simp
    have cs: "capSq (stm b) m = int (to_sq m)" using 1(1) by (simp add: capSq_def)
    have u1: "has (pcs b) x (from_sq m) = (x = p)" if "x < 12" for x
      using has_unique [OF dj 1(2) 1(3) that] .
    have df: "unmakeMove_defined b' m"
      using m pl pto 1(2) c12 cs
      by (simp add: unmakeMove_defined_def f(4) rs h' side NO_PIECE_def)
    consider (cap) "capturedPiece b m < 12" "has (pcs b) (capturedPiece b m) (to_sq m)"
      | (nocap) "capturedPiece b m = NO_PIECE" "vacant (pcs b) (to_sq m)"
      using piece_at_cases [OF len, of "int (to_sq m)"] 1(1) by (auto simp: capturedPiece_def)
    then have "unmakeMove_pcs b' m = pcs b"
    proof cases
      case cap
      have u2: "has (pcs b) x (to_sq m) = (x = capturedPiece b m)" if "x < 12" for x
        using has_unique [OF dj cap(1) cap(2) that] .
      have eq: "p = capturedPiece b m" if "from_sq m = to_sq m"
        using disjoint_has [OF dj 1(2) cap(1) 1(3)] cap(2) that by simp
      have "unmakeMove_pcs b' m
            = put (put (clr (pcs b') p (int (to_sq m))) p (int (from_sq m))) (capturedPiece b m) (int (to_sq m))"
        using cap(1) 1(1) m by (simp add: unmakeMove_pcs_def Let_def pto rs f(4) h' side cs NO_PIECE_def)
      also have "\<dots> = pcs b"
        using len len' 1(2) cap(1) m eq
        by (intro pcs_eqI) (auto simp: has_put has_clr pt u1 u2)
      finally show ?thesis .
    next
      case nocap
      have u2: "has (pcs b) x (to_sq m) = False" if "x < 12" for x
        using vacantD [OF nocap(2) that] by simp
      have "unmakeMove_pcs b' m = put (clr (pcs b') p (int (to_sq m))) p (int (from_sq m))"
        using nocap(1) 1(1) m by (simp add: unmakeMove_pcs_def Let_def pto rs f(4) h' side)
      also have "\<dots> = pcs b"
        using len len' 1(2) m sq_neq_vacant [OF 1(3) 1(2) nocap(2)]
        by (intro pcs_eqI) (auto simp: has_put has_clr pt u1 u2)
      finally show ?thesis .
    qed
    with df show ?case ..
  next
    case (2 P E cs)
    note pt = patched_has [OF 2(15) [folded f(2)]]
    have pto: "piece_at b' (int (to_sq m)) = P"
      using piece_at_has [OF len' dj' 2(2), of "int (to_sq m)"] pt [OF 2(2), of "to_sq m"] by simp
    have u1: "has (pcs b) x (from_sq m) = (x = P)" if "x < 12" for x
      using has_unique [OF dj 2(2) 2(4) that] .
    have u2: "has (pcs b) x (to_sq m) = False" if "x < 12" for x
      using vacantD [OF 2(6) that] by simp
    have u3: "has (pcs b) x cs = (x = E)" if "x < 12" for x
      using has_unique [OF dj 2(3) 2(9) that] .
    have ne: "from_sq m \<noteq> to_sq m" "cs \<noteq> to_sq m" "from_sq m \<noteq> cs"
      using sq_neq_vacant [OF 2(4) 2(2) 2(6)] sq_neq_vacant [OF 2(9) 2(3) 2(6)]
        sq_neq_pieces [OF dj 2(4) 2(2) 2(9) 2(3) 2(14)] by auto
    have df: "unmakeMove_defined b' m"
      using m pl pto 2(2,3,7,8,10)
      by (simp add: unmakeMove_defined_def f(4) rs h' side NO_PIECE_def)
    have "unmakeMove_pcs b' m
            = put (put (clr (pcs b') P (int (to_sq m))) P (int (from_sq m))) E (int cs)"
      using 2(1,3,7,8) m by (simp add: unmakeMove_pcs_def Let_def pto rs f(4) h' side NO_PIECE_def)
    also have "\<dots> = pcs b"
      using len len' 2(2,3,10) m ne
      by (intro pcs_eqI) (auto simp: has_put has_clr pt u1 u2 u3)
    finally show ?case using df by simp
  next
    case (3 K R rf rt)
    note pt = patched_has [OF 3(15) [folded f(2)]]
    have pto: "piece_at b' (int (to_sq m)) = K"
      using piece_at_has [OF len' dj' 3(2), of "int (to_sq m)"] pt [OF 3(2), of "to_sq m"] by simp
    have u1: "has (pcs b) x (from_sq m) = (x = K)" if "x < 12" for x
      using has_unique [OF dj 3(2) 3(4) that] .
    have u2: "has (pcs b) x (to_sq m) = False" if "x < 12" for x
      using vacantD [OF 3(7) that] by simp
    have u3: "has (pcs b) x rt = False" if "x < 12" for x
      using vacantD [OF 3(8) that] by simp
    have u4: "has (pcs b) x rf = (x = R)" if "x < 12" for x
      using has_unique [OF dj 3(3) 3(9) that] .
    have ne: "from_sq m \<noteq> to_sq m" "rf \<noteq> to_sq m" "from_sq m \<noteq> rt" "rf \<noteq> rt" "from_sq m \<noteq> rf"
      using sq_neq_vacant [OF 3(4) 3(2) 3(7)] sq_neq_vacant [OF 3(9) 3(3) 3(7)]
        sq_neq_vacant [OF 3(4) 3(2) 3(8)] sq_neq_vacant [OF 3(9) 3(3) 3(8)]
        sq_neq_pieces [OF dj 3(4) 3(2) 3(9) 3(3) 3(14)] by auto
    have df: "unmakeMove_defined b' m"
      using m pl pto 3(2,6)
      by (simp add: unmakeMove_defined_def f(4) rs h' side NO_PIECE_def)
    have "unmakeMove_pcs b' m
            = put (clr (put (clr (pcs b') K (int (to_sq m))) K (int (from_sq m))) R (int rt)) R (int rf)"
      using 3(1,6,13) m by (simp add: unmakeMove_pcs_def Let_def pto rs f(4) h' side)
    also have "\<dots> = pcs b"
      using len len' 3(2,3,10,11,12) m ne
      by (intro pcs_eqI) (auto simp: has_put has_clr pt u1 u2 u3 u4)
    finally show ?case using df by simp
  qed
  then show ?thesis using roundtrip_finish [OF inv mk] by blast
qed

section \<open>What the generator emits\<close>

lemma u16_id: "0 \<le> x \<Longrightarrow> x < 65536 \<Longrightarrow> u16 x = nat x"
  by (simp add: u16_def)

lemma bit_RANK_2: "bit RANK_2 n \<longleftrightarrow> 8 \<le> n \<and> n < 16"
proof -
  have e: "RANK_2 = push_bit 8 (mask 8)" by (simp add: RANK_2_def mask_eq_exp_minus_1)
  show ?thesis unfolding e by (auto simp: bit_simps)
qed

lemma bit_RANK_7: "bit RANK_7 n \<longleftrightarrow> 48 \<le> n \<and> n < 56"
proof -
  have e: "RANK_7 = push_bit 48 (mask 8)" by (simp add: RANK_7_def mask_eq_exp_minus_1)
  show ?thesis unfolding e by (auto simp: bit_simps)
qed

lemma all_lt12: "(\<forall>p<12. P p) \<longleftrightarrow> P 0 \<and> P 1 \<and> P 2 \<and> P 3 \<and> P 4 \<and> P 5 \<and> P 6 \<and> P 7 \<and> P 8 \<and> P 9 \<and> P 10 \<and> P (11::nat)"
  by (simp add: eval_nat_numeral All_less_Suc conj_ac)

lemma vacant_iff: "vacant ps n \<longleftrightarrow> \<not> bit (whiteOcc ps OR blackOcc ps) n"
  by (simp add: vacant_def all_lt12 has_def whiteOcc_def blackOcc_def piece_defs bit_or_iff)

lemma Inv_vacant: "Inv b \<Longrightarrow> vacant (pcs b) n \<longleftrightarrow> \<not> bit (occAll b) n"
  by (simp add: vacant_iff Inv_def)

lemma pawnMoves_mem:
  assumes "m \<in> set (pawnMoves w d)"
  obtains t where "0 \<le> t" "t < 64" "bit w (nat t)" "m = mk_move (u16 (t + d)) (nat t) 0 0"
proof -
  from assms obtain t where t: "t \<in> set (squares w)" "m = mk_move (u16 (t + d)) (u16 t) 0 0"
    by (auto simp: pawnMoves_def)
  from squares_sound [OF t(1)] have "0 \<le> t" "t < 64" "bit w (nat t)" by auto
  with t(2) show ?thesis by (intro that [of t]) (auto simp: u16_id)
qed

lemma pushMoves_mem:
  assumes "m \<in> set (pushMovesFromMask fr w)"
  obtains t where "0 \<le> t" "t < 64" "bit w (nat t)" "m = mk_move (u16 fr) (nat t) 0 0"
proof -
  from assms obtain t where t: "t \<in> set (squares w)" "m = mk_move (u16 fr) (u16 t) 0 0"
    by (auto simp: pushMovesFromMask_def)
  from squares_sound [OF t(1)] have "0 \<le> t" "t < 64" "bit w (nat t)" by auto
  with t(2) show ?thesis by (intro that [of t]) (auto simp: u16_id)
qed

lemma slide_loop_mem:
  "m \<in> set (slide_loop b fr dr df rr ff) \<Longrightarrow> \<exists>t<64. m = mk_move (u16 fr) t 0 0"
proof (induction b fr dr df rr ff rule: slide_loop.induct)
  case (1 b fr dr df rr ff)
  show ?case
  proof (cases "(dr = 0 \<and> df = 0) \<or> \<not> on_board rr ff")
    case True
    with "1.prems" show ?thesis by (subst (asm) slide_loop.simps) simp
  next
    case False
    then have r: "0 \<le> rr * 8 + ff" "rr * 8 + ff < 64" by (auto simp: on_board_def)
    then have u: "u16 (rr * 8 + ff) = nat (rr * 8 + ff)" "nat (rr * 8 + ff) < 64"
      by (auto simp: u16_id)
    from "1.prems" False
    have "m = mk_move (u16 fr) (u16 (rr * 8 + ff)) 0 0
          \<or> (occAll b AND sq_mask (rr * 8 + ff) = 0 \<and> m \<in> set (slide_loop b fr dr df (rr + dr) (ff + df)))"
      by (subst (asm) slide_loop.simps) (auto simp: Let_def split: if_splits)
    then show ?thesis
    proof
      assume "m = mk_move (u16 fr) (u16 (rr * 8 + ff)) 0 0"
      with u show ?thesis by auto
    next
      assume a: "occAll b AND sq_mask (rr * 8 + ff) = 0 \<and> m \<in> set (slide_loop b fr dr df (rr + dr) (ff + df))"
      with False show ?thesis using "1.IH" [of "rr * 8 + ff" "sq_mask (rr * 8 + ff)"] by auto
    qed
  qed
qed

lemma mk_move_simps [simp]:
  "from_sq (mk_move f t p fl) = f" "to_sq (mk_move f t p fl) = t"
  "promo (mk_move f t p fl) = p" "flags (mk_move f t p fl) = fl"
  by (simp_all add: mk_move_def)

lemma pawnMoves_memN:
  assumes "m \<in> set (pawnMoves w d)"
  obtains n where "n < 64" "bit w n" "m = mk_move (u16 (int n + d)) n 0 0"
proof (rule pawnMoves_mem [OF assms])
  fix t assume "0 \<le> t" "t < 64" "bit w (nat t)" "m = mk_move (u16 (t + d)) (nat t) 0 0"
  then show thesis by (intro that [of "nat t"]) auto
qed

lemma pushMoves_memN:
  assumes "m \<in> set (pushMovesFromMask fr w)"
  obtains n where "n < 64" "bit w n" "m = mk_move (u16 fr) n 0 0"
proof (rule pushMoves_mem [OF assms])
  fix t assume "0 \<le> t" "t < 64" "bit w (nat t)" "m = mk_move (u16 fr) (nat t) 0 0"
  then show thesis by (intro that [of "nat t"]) auto
qed

lemma squares_memN:
  assumes "t \<in> set (squares w)"
  obtains n where "n < 64" "bit w n" "t = int n" "u16 t = n"
  using squares_sound [OF assms] by (intro that [of "nat t"]) (auto simp: u16_id)

lemma pseudo_okI_plain:
  assumes "f < 64" "t < 64" "own_piece (stm b) p" "has (pcs b) p f"
    "p = WP \<Longrightarrow> t = f + 8 \<or> t = f + 7 \<or> t = f + 9
             \<or> (t = f + 16 \<and> 8 \<le> f \<and> f \<le> 15 \<and> vacant (pcs b) (f + 8) \<and> vacant (pcs b) t)"
    "p = BP \<Longrightarrow> t + 8 = f \<or> t + 7 = f \<or> t + 9 = f
             \<or> (t + 16 = f \<and> 48 \<le> f \<and> f \<le> 55 \<and> vacant (pcs b) (t + 8) \<and> vacant (pcs b) t)"
  shows "pseudo_ok b (mk_move f t 0 0)"
  unfolding pseudo_ok_def plain_ok_def using assms by (auto intro!: exI [of _ p])

lemma bit_shl: "bit (push_bit k (w :: Bitboard)) n \<longleftrightarrow> k \<le> n \<and> n < 64 \<and> bit w (n - k)"
  by (auto simp: bit_simps)

lemma bit_shr: "bit (drop_bit k (w :: Bitboard)) n \<longleftrightarrow> bit w (k + n)"
  by (auto simp: bit_simps)

lemma pawnsWhite_ok:
  assumes inv: "Inv b" and w: "stm b = WHITE" and m: "m \<in> set (pawnsWhite b)"
  shows "pseudo_ok b m"
proof -
  have own: "own_piece (stm b) WP" by (simp add: w own_piece_def WP_def)
  have nb: "WP \<noteq> BP" by (simp add: piece_defs)
  let ?singles = "push_bit 8 (pcs b ! WP) AND NOT (occAll b)"
  from m consider
      (s) "m \<in> set (pawnMoves ?singles (- 8))"
    | (d) "m \<in> set (pawnMoves (push_bit 8 (?singles AND push_bit 8 RANK_2) AND NOT (occAll b)) (- 16))"
    | (nw) "m \<in> set (pawnMoves (push_bit 7 (pcs b ! WP AND NOT FILE_A) AND occ b ! cix BLACK) (- 7))"
    | (ne) "m \<in> set (pawnMoves (push_bit 9 (pcs b ! WP AND NOT FILE_H) AND occ b ! cix BLACK) (- 9))"
    by (auto simp: pawnsWhite_def Let_def)
  then show ?thesis
  proof cases
    case s
    then show ?thesis
    proof (rule pawnMoves_memN)
      fix n assume n: "n < 64" "bit ?singles n" "m = mk_move (u16 (int n + - 8)) n 0 0"
      then have a: "8 \<le> n" "has (pcs b) WP (n - 8)" by (auto simp: bit_and_iff bit_shl has_def)
      then have u: "u16 (int n + - 8) = n - 8" using n(1) by (simp add: u16_def nat_diff_distrib)
      show ?thesis unfolding n(3) u
        by (rule pseudo_okI_plain [OF _ n(1) own a(2)]) (use n a nb in auto)
    qed
  next
    case d
    then show ?thesis
    proof (rule pawnMoves_memN)
      fix n assume n: "n < 64"
        "bit (push_bit 8 (?singles AND push_bit 8 RANK_2) AND NOT (occAll b)) n"
        "m = mk_move (u16 (int n + - 16)) n 0 0"
      then have a: "24 \<le> n" "n < 32" "has (pcs b) WP (n - 16)" "\<not> bit (occAll b) (n - 8)" "\<not> bit (occAll b) n"
        by (auto simp: bit_and_iff bit_shl bit_not_iff bit_RANK_2 has_def)
      then have u: "u16 (int n + - 16) = n - 16" by (simp add: u16_def nat_diff_distrib)
      have v: "vacant (pcs b) (n - 16 + 8)" "vacant (pcs b) n"
        using a by (simp_all add: Inv_vacant [OF inv])
      show ?thesis unfolding n(3) u
        by (rule pseudo_okI_plain [OF _ n(1) own a(3)]) (use n a nb v in auto)
    qed
  next
    case nw
    then show ?thesis
    proof (rule pawnMoves_memN)
      fix n assume n: "n < 64" "bit (push_bit 7 (pcs b ! WP AND NOT FILE_A) AND occ b ! cix BLACK) n"
        "m = mk_move (u16 (int n + - 7)) n 0 0"
      then have a: "7 \<le> n" "has (pcs b) WP (n - 7)" by (auto simp: bit_and_iff bit_shl has_def)
      then have u: "u16 (int n + - 7) = n - 7" using n(1) by (simp add: u16_def nat_diff_distrib)
      show ?thesis unfolding n(3) u
        by (rule pseudo_okI_plain [OF _ n(1) own a(2)]) (use n a nb in auto)
    qed
  next
    case ne
    then show ?thesis
    proof (rule pawnMoves_memN)
      fix n assume n: "n < 64" "bit (push_bit 9 (pcs b ! WP AND NOT FILE_H) AND occ b ! cix BLACK) n"
        "m = mk_move (u16 (int n + - 9)) n 0 0"
      then have a: "9 \<le> n" "has (pcs b) WP (n - 9)" by (auto simp: bit_and_iff bit_shl has_def)
      then have u: "u16 (int n + - 9) = n - 9" using n(1) by (simp add: u16_def nat_diff_distrib)
      show ?thesis unfolding n(3) u
        by (rule pseudo_okI_plain [OF _ n(1) own a(2)]) (use n a nb in auto)
    qed
  qed
qed

lemma pawnsBlack_ok:
  assumes inv: "Inv b" and w: "stm b = BLACK" and m: "m \<in> set (pawnsBlack b)"
  shows "pseudo_ok b m"
proof -
  have own: "own_piece (stm b) BP" by (simp add: w own_piece_def BP_def)
  have nb: "BP \<noteq> WP" by (simp add: piece_defs)
  let ?singles = "drop_bit 8 (pcs b ! BP) AND NOT (occAll b)"
  from m consider
      (s) "m \<in> set (pawnMoves ?singles 8)"
    | (d) "m \<in> set (pawnMoves (drop_bit 8 (?singles AND drop_bit 8 RANK_7) AND NOT (occAll b)) 16)"
    | (se) "m \<in> set (pawnMoves (drop_bit 7 (pcs b ! BP AND NOT FILE_H) AND occ b ! cix WHITE) 7)"
    | (sw) "m \<in> set (pawnMoves (drop_bit 9 (pcs b ! BP AND NOT FILE_A) AND occ b ! cix WHITE) 9)"
    by (auto simp: pawnsBlack_def Let_def)
  then show ?thesis
  proof cases
    case s
    then show ?thesis
    proof (rule pawnMoves_memN)
      fix n assume n: "n < 64" "bit ?singles n" "m = mk_move (u16 (int n + 8)) n 0 0"
      then have a: "has (pcs b) BP (n + 8)" by (auto simp: bit_and_iff bit_shr has_def add.commute)
      have u: "u16 (int n + 8) = n + 8" using n(1) by (simp add: u16_def nat_add_distrib)
      show ?thesis unfolding n(3) u
        by (rule pseudo_okI_plain [OF _ n(1) own a]) (use n a nb has_lt64 [OF a] in auto)
    qed
  next
    case d
    then show ?thesis
    proof (rule pawnMoves_memN)
      fix n assume n: "n < 64"
        "bit (drop_bit 8 (?singles AND drop_bit 8 RANK_7) AND NOT (occAll b)) n"
        "m = mk_move (u16 (int n + 16)) n 0 0"
      then have a: "32 \<le> n" "n < 40" "has (pcs b) BP (n + 16)" "\<not> bit (occAll b) (n + 8)" "\<not> bit (occAll b) n"
        by (auto simp: bit_and_iff bit_shr bit_not_iff bit_RANK_7 has_def add.commute)
      have u: "u16 (int n + 16) = n + 16" using n(1) by (simp add: u16_def nat_add_distrib)
      have v: "vacant (pcs b) (n + 8)" "vacant (pcs b) n"
        using a by (simp_all add: Inv_vacant [OF inv])
      show ?thesis unfolding n(3) u
        by (rule pseudo_okI_plain [OF _ n(1) own a(3)]) (use n a nb v in auto)
    qed
  next
    case se
    then show ?thesis
    proof (rule pawnMoves_memN)
      fix n assume n: "n < 64" "bit (drop_bit 7 (pcs b ! BP AND NOT FILE_H) AND occ b ! cix WHITE) n"
        "m = mk_move (u16 (int n + 7)) n 0 0"
      then have a: "has (pcs b) BP (n + 7)" by (auto simp: bit_and_iff bit_shr has_def add.commute)
      have u: "u16 (int n + 7) = n + 7" using n(1) by (simp add: u16_def nat_add_distrib)
      show ?thesis unfolding n(3) u
        by (rule pseudo_okI_plain [OF _ n(1) own a]) (use n a nb has_lt64 [OF a] in auto)
    qed
  next
    case sw
    then show ?thesis
    proof (rule pawnMoves_memN)
      fix n assume n: "n < 64" "bit (drop_bit 9 (pcs b ! BP AND NOT FILE_A) AND occ b ! cix WHITE) n"
        "m = mk_move (u16 (int n + 9)) n 0 0"
      then have a: "has (pcs b) BP (n + 9)" by (auto simp: bit_and_iff bit_shr has_def add.commute)
      have u: "u16 (int n + 9) = n + 9" using n(1) by (simp add: u16_def nat_add_distrib)
      show ?thesis unfolding n(3) u
        by (rule pseudo_okI_plain [OF _ n(1) own a]) (use n a nb has_lt64 [OF a] in auto)
    qed
  qed
qed

lemma and_neq0_bit: "(v AND w \<noteq> (0 :: Bitboard)) \<Longrightarrow> \<exists>n. bit v n \<and> bit w n"
proof -
  assume "v AND w \<noteq> 0"
  then obtain n where "bit (v AND w) n" by (auto simp: bit_eq_iff)
  then show ?thesis by (auto simp: bit_and_iff)
qed

lemma pseudo_okI_ep:
  assumes "f < 64" "t < 64" "epSquare b \<noteq> - 1" "int t = epSquare b"
    "has (pcs b) (if stm b = WHITE then WP else BP) f"
    "if stm b = WHITE then t = f + 7 \<or> t = f + 9 else t + 7 = f \<or> t + 9 = f"
  shows "pseudo_ok b (mk_move f t 0 (MF_ENPASSANT OR MF_CAPTURE))"
  unfolding pseudo_ok_def ep_move_ok_def using assms by simp

lemma epWhite_ok:
  assumes inv: "Inv b" and w: "stm b = WHITE" and m: "m \<in> set (epWhite b)"
  shows "pseudo_ok b m"
proof -
  from m have ne: "epSquare b \<noteq> - 1" by (auto simp: epWhite_def split: if_splits)
  with Inv_ep [OF inv] w have r: "40 \<le> epSquare b" "epSquare b \<le> 47" by (auto simp: ep_ok_def)
  define e where "e = nat (epSquare b)"
  have e: "epSquare b = int e" "40 \<le> e" "e \<le> 47" using r by (auto simp: e_def)
  have u: "u16 (epSquare b) = e" "u16 (epSquare b - 7) = e - 7" "u16 (epSquare b - 9) = e - 9"
    using e by (auto simp: u16_def nat_diff_distrib)
  from m ne consider
      (a) "(pcs b ! WP AND NOT FILE_A) AND drop_bit 7 (sq_mask (epSquare b)) \<noteq> 0"
          "m = mk_move (e - 7) e 0 (MF_ENPASSANT OR MF_CAPTURE)"
    | (b) "(pcs b ! WP AND NOT FILE_H) AND drop_bit 9 (sq_mask (epSquare b)) \<noteq> 0"
          "m = mk_move (e - 9) e 0 (MF_ENPASSANT OR MF_CAPTURE)"
    by (auto simp: epWhite_def Let_def u split: if_splits)
  then show ?thesis
  proof cases
    case a
    from and_neq0_bit [OF a(1)] obtain n where "bit (pcs b ! WP) n" "bit (sq_mask (epSquare b)) (7 + n)"
      by (auto simp: bit_and_iff bit_shr)
    then have "has (pcs b) WP (e - 7)" using e by (auto simp: bit_sq_mask has_def)
    then show ?thesis unfolding a(2)
      by (intro pseudo_okI_ep) (use e w ne in auto)
  next
    case b
    from and_neq0_bit [OF b(1)] obtain n where "bit (pcs b ! WP) n" "bit (sq_mask (epSquare b)) (9 + n)"
      by (auto simp: bit_and_iff bit_shr)
    then have "has (pcs b) WP (e - 9)" using e by (auto simp: bit_sq_mask has_def)
    then show ?thesis unfolding b(2)
      by (intro pseudo_okI_ep) (use e w ne in auto)
  qed
qed

lemma epBlack_ok:
  assumes inv: "Inv b" and w: "stm b = BLACK" and m: "m \<in> set (epBlack b)"
  shows "pseudo_ok b m"
proof -
  from m have ne: "epSquare b \<noteq> - 1" by (auto simp: epBlack_def split: if_splits)
  with Inv_ep [OF inv] w have r: "16 \<le> epSquare b" "epSquare b \<le> 23" by (auto simp: ep_ok_def)
  define e where "e = nat (epSquare b)"
  have e: "epSquare b = int e" "16 \<le> e" "e \<le> 23" using r by (auto simp: e_def)
  have u: "u16 (epSquare b) = e" "u16 (epSquare b + 7) = e + 7" "u16 (epSquare b + 9) = e + 9"
    using e by (auto simp: u16_def nat_add_distrib)
  from m ne consider
      (a) "(pcs b ! BP AND NOT FILE_H) AND push_bit 7 (sq_mask (epSquare b)) \<noteq> 0"
          "m = mk_move (e + 7) e 0 (MF_ENPASSANT OR MF_CAPTURE)"
    | (b) "(pcs b ! BP AND NOT FILE_A) AND push_bit 9 (sq_mask (epSquare b)) \<noteq> 0"
          "m = mk_move (e + 9) e 0 (MF_ENPASSANT OR MF_CAPTURE)"
    by (auto simp: epBlack_def Let_def u split: if_splits)
  then show ?thesis
  proof cases
    case a
    from and_neq0_bit [OF a(1)] obtain n where "bit (pcs b ! BP) n" "7 \<le> n" "bit (sq_mask (epSquare b)) (n - 7)"
      by (auto simp: bit_and_iff bit_shl)
    then have "has (pcs b) BP (e + 7)" using e by (auto simp: bit_sq_mask has_def)
    then show ?thesis unfolding a(2)
      by (intro pseudo_okI_ep) (use e w ne in auto)
  next
    case b
    from and_neq0_bit [OF b(1)] obtain n where "bit (pcs b ! BP) n" "9 \<le> n" "bit (sq_mask (epSquare b)) (n - 9)"
      by (auto simp: bit_and_iff bit_shl)
    then have "has (pcs b) BP (e + 9)" using e by (auto simp: bit_sq_mask has_def)
    then show ?thesis unfolding b(2)
      by (intro pseudo_okI_ep) (use e w ne in auto)
  qed
qed

lemma pseudo_okI_piece:
  assumes "f < 64" "t < 64" "own_piece (stm b) p" "has (pcs b) p f" "p \<noteq> WP" "p \<noteq> BP"
  shows "pseudo_ok b (mk_move f t 0 0)"
  by (rule pseudo_okI_plain [OF assms(1-4)]) (use assms in auto)

lemma knightPart_ok:
  assumes own: "own_piece (stm b) p" "p \<noteq> WP" "p \<noteq> BP" and m: "m \<in> set (knightPart b p them)"
  shows "pseudo_ok b m"
proof -
  from m obtain fr where fr: "fr \<in> set (squares (pcs b ! p))"
    and mm: "m \<in> set (pushMovesFromMask fr (knightAttacks fr AND NOT (occAll b)))
          \<or> m \<in> set (pushMovesFromMask fr (knightAttacks fr AND them))"
    by (auto simp: knightPart_def)
  from fr obtain f where f: "f < 64" "bit (pcs b ! p) f" "u16 fr = f" by (rule squares_memN)
  from mm obtain w where "m \<in> set (pushMovesFromMask fr w)" by blast
  then obtain n where n: "n < 64" "m = mk_move (u16 fr) n 0 0" by (rule pushMoves_memN)
  show ?thesis unfolding n(2) f(3)
    by (rule pseudo_okI_piece [OF f(1) n(1) own(1) _ own(2,3)]) (simp add: has_def f)
qed

lemma sliderPart_ok:
  assumes own: "own_piece (stm b) p" "p \<noteq> WP" "p \<noteq> BP" and m: "m \<in> set (sliderPart b p dirs)"
  shows "pseudo_ok b m"
proof -
  from m obtain fr dr df where fr: "fr \<in> set (squares (pcs b ! p))"
    and mm: "m \<in> set (slideInDirection b fr dr df)"
    by (auto simp: sliderPart_def)
  from fr obtain f where f: "f < 64" "bit (pcs b ! p) f" "u16 fr = f" by (rule squares_memN)
  from mm obtain t where t: "t < 64" "m = mk_move (u16 fr) t 0 0"
    unfolding slideInDirection_def using slide_loop_mem by blast
  show ?thesis unfolding t(2) f(3)
    by (rule pseudo_okI_piece [OF f(1) t(1) own(1) _ own(2,3)]) (simp add: has_def f)
qed

lemma kingPart_ok:
  assumes own: "own_piece (stm b) p" "p \<noteq> WP" "p \<noteq> BP" and nz: "pcs b ! p \<noteq> 0"
    and m: "m \<in> set (kingPart b p them)"
  shows "pseudo_ok b m"
proof -
  note s = lsb_spec [OF nz]
  have u: "u16 (lsb (pcs b ! p)) = nat (lsb (pcs b ! p))" using s by (simp add: u16_id)
  from m obtain w where "m \<in> set (pushMovesFromMask (lsb (pcs b ! p)) w)"
    by (auto simp: kingPart_def Let_def)
  then obtain n where n: "n < 64" "m = mk_move (u16 (lsb (pcs b ! p))) n 0 0" by (rule pushMoves_memN)
  show ?thesis unfolding n(2) u
    by (rule pseudo_okI_piece [OF _ n(1) own(1) _ own(2,3)]) (use s in \<open>auto simp: has_def\<close>)
qed

lemma and_masks_eq0: "(w AND (sq_mask x OR sq_mask y) = 0) = (\<not> bit w (nat x) \<and> \<not> bit w (nat y))"
proof -
  have "w AND (sq_mask x OR sq_mask y) = (w AND sq_mask x) OR (w AND sq_mask y)"
    by (simp add: bit.conj_disj_distrib)
  then show ?thesis by (simp add: and_sq_mask_eq0 or_eq_0_iff)
qed

lemma castleWhite_ok:
  assumes inv: "Inv b" and w: "stm b = WHITE" and m: "m \<in> set (castleWhite b)"
  shows "pseudo_ok b m"
proof -
  from m have k: "has (pcs b) WK 4"
    by (auto simp: castleWhite_def and_sq_mask_neq0 has_def split: if_splits)
  from m consider
      (ks) "m = mk_move 4 6 0 MF_CASTLE" "vacant (pcs b) 5" "vacant (pcs b) 6" "has (pcs b) WR 7"
    | (qs) "m = mk_move 4 2 0 MF_CASTLE" "vacant (pcs b) 3" "vacant (pcs b) 2" "has (pcs b) WR 0"
    by (auto simp: castleWhite_def and_sq_mask_neq0 and_masks_eq0 has_def Inv_vacant [OF inv]
        split: if_splits)
  then show ?thesis
    using k w by cases (auto simp: pseudo_ok_def castle_ok_def flag_defs)
qed

lemma castleBlack_ok:
  assumes inv: "Inv b" and w: "stm b = BLACK" and m: "m \<in> set (castleBlack b)"
  shows "pseudo_ok b m"
proof -
  from m have k: "has (pcs b) BK 60"
    by (auto simp: castleBlack_def and_sq_mask_neq0 has_def split: if_splits)
  from m consider
      (ks) "m = mk_move 60 62 0 MF_CASTLE" "vacant (pcs b) 61" "vacant (pcs b) 62" "has (pcs b) BR 63"
    | (qs) "m = mk_move 60 58 0 MF_CASTLE" "vacant (pcs b) 59" "vacant (pcs b) 58" "has (pcs b) BR 56"
    by (auto simp: castleBlack_def and_sq_mask_neq0 and_masks_eq0 has_def Inv_vacant [OF inv]
        split: if_splits)
  then show ?thesis
    using k w by cases (auto simp: pseudo_ok_def castle_ok_def flag_defs)
qed

lemma pseudoMoves_ok:
  assumes inv: "Inv b" and king: "pcs b ! (if stm b = WHITE then WK else BK) \<noteq> 0"
    and m: "m \<in> set (pseudoMoves b)"
  shows "pseudo_ok b m"
proof (cases "stm b")
  case WHITE
  have o: "own_piece (stm b) WN" "own_piece (stm b) WB" "own_piece (stm b) WR"
    "own_piece (stm b) WQ" "own_piece (stm b) WK"
    by (simp_all add: WHITE own_piece_def piece_defs)
  from m WHITE consider "m \<in> set (pawnsWhite b)" | "m \<in> set (epWhite b)"
    | "m \<in> set (knightPart b WN (occ b ! cix BLACK))"
    | "m \<in> set (sliderPart b WB diag_dirs)" | "m \<in> set (sliderPart b WR orth_dirs)"
    | "m \<in> set (sliderPart b WQ (diag_dirs @ orth_dirs))"
    | "m \<in> set (kingPart b WK (occ b ! cix BLACK))" | "m \<in> set (castleWhite b)"
    by (auto simp: pseudoMoves_def)
  then show ?thesis
  proof cases
    case 1 then show ?thesis by (rule pawnsWhite_ok [OF inv WHITE])
  next
    case 2 then show ?thesis by (rule epWhite_ok [OF inv WHITE])
  next
    case 3 show ?thesis by (rule knightPart_ok [OF o(1) _ _ 3]) (simp_all add: piece_defs)
  next
    case 4 show ?thesis by (rule sliderPart_ok [OF o(2) _ _ 4]) (simp_all add: piece_defs)
  next
    case 5 show ?thesis by (rule sliderPart_ok [OF o(3) _ _ 5]) (simp_all add: piece_defs)
  next
    case 6 show ?thesis by (rule sliderPart_ok [OF o(4) _ _ 6]) (simp_all add: piece_defs)
  next
    case 7 show ?thesis by (rule kingPart_ok [OF o(5) _ _ _ 7]) (use king WHITE in \<open>simp_all add: piece_defs\<close>)
  next
    case 8 then show ?thesis by (rule castleWhite_ok [OF inv WHITE])
  qed
next
  case BLACK
  have o: "own_piece (stm b) BN" "own_piece (stm b) BB" "own_piece (stm b) BR"
    "own_piece (stm b) BQ" "own_piece (stm b) BK"
    by (simp_all add: BLACK own_piece_def piece_defs)
  from m BLACK consider "m \<in> set (pawnsBlack b)" | "m \<in> set (epBlack b)"
    | "m \<in> set (knightPart b BN (occ b ! cix WHITE))"
    | "m \<in> set (sliderPart b BB diag_dirs)" | "m \<in> set (sliderPart b BR orth_dirs)"
    | "m \<in> set (sliderPart b BQ (diag_dirs @ orth_dirs))"
    | "m \<in> set (kingPart b BK (occ b ! cix WHITE))" | "m \<in> set (castleBlack b)"
    by (auto simp: pseudoMoves_def)
  then show ?thesis
  proof cases
    case 1 then show ?thesis by (rule pawnsBlack_ok [OF inv BLACK])
  next
    case 2 then show ?thesis by (rule epBlack_ok [OF inv BLACK])
  next
    case 3 show ?thesis by (rule knightPart_ok [OF o(1) _ _ 3]) (simp_all add: piece_defs)
  next
    case 4 show ?thesis by (rule sliderPart_ok [OF o(2) _ _ 4]) (simp_all add: piece_defs)
  next
    case 5 show ?thesis by (rule sliderPart_ok [OF o(3) _ _ 5]) (simp_all add: piece_defs)
  next
    case 6 show ?thesis by (rule sliderPart_ok [OF o(4) _ _ 6]) (simp_all add: piece_defs)
  next
    case 7 show ?thesis by (rule kingPart_ok [OF o(5) _ _ _ 7]) (use king BLACK in \<open>simp_all add: piece_defs\<close>)
  next
    case 8 then show ?thesis by (rule castleBlack_ok [OF inv BLACK])
  qed
qed

lemma legalFilter_eq:
  "legalFilter b ms = Some r \<Longrightarrow>
     (\<forall>m\<in>set ms. \<exists>t. makeMove b m = Some t)
     \<and> r = filter (\<lambda>m. \<not> inCheck (the (makeMove b m)) (stm b)) ms"
  by (induction ms arbitrary: r) (auto split: option.splits if_splits)

lemma generateMoves_mem:
  assumes "generateMoves b = Some mv" "m \<in> set mv"
  shows "m \<in> set (pseudoMoves b)" "\<exists>t. makeMove b m = Some t \<and> \<not> inCheck t (stm b)"
    "pcs b ! (if stm b = WHITE then WK else BK) \<noteq> 0"
proof -
  from assms(1) have k: "pcs b ! (if stm b = WHITE then WK else BK) \<noteq> 0"
    and l: "legalFilter b (pseudoMoves b) = Some mv"
    by (auto simp: generateMoves_def split: if_splits)
  from legalFilter_eq [OF l] assms(2)
  show "m \<in> set (pseudoMoves b)" "\<exists>t. makeMove b m = Some t \<and> \<not> inCheck t (stm b)"
    by auto
  show "pcs b ! (if stm b = WHITE then WK else BK) \<noteq> 0" by (rule k)
qed

lemma generated_ok:
  assumes "Inv b" "generateMoves b = Some mv" "m \<in> set mv"
  shows "pseudo_ok b m"
  using generateMoves_mem [OF assms(2,3)] pseudoMoves_ok [OF assms(1)] by blast

section \<open>Reachable positions\<close>

lemma agree_refl: "agree a a"
  by (simp add: agree_def same_position_def)

lemma agree_sym: "agree a b \<Longrightarrow> agree b a"
  by (simp add: agree_def same_position_def)

lemma agree_trans: "agree a b \<Longrightarrow> agree b c \<Longrightarrow> agree a c"
  by (simp add: agree_def same_position_def)

lemma Inv_agree: "agree a b \<Longrightarrow> Inv a \<Longrightarrow> Inv b"
  by (simp add: agree_def same_position_def Inv_def ep_ok_def)

lemma piece_at_cong: "pcs a = pcs b \<Longrightarrow> piece_at a s = piece_at b s"
  by (simp add: piece_at_def)

lemma unmake_agree:
  assumes ag: "agree a b" and un: "unmakeMove a m = Some a'"
  shows "\<exists>b'. unmakeMove b m = Some b' \<and> agree a' b'"
proof -
  note f = unmakeMove_fields [OF un]
  from ag have e: "pcs a = pcs b" "stm a = stm b" "ply a = ply b"
    "epSquare a = epSquare b" "castleRights a = castleRights b"
    and hs: "\<And>i. int i < ply b \<Longrightarrow> hist a i = hist b i"
    by (simp_all add: agree_def same_position_def)
  from f(1) have p: "0 \<le> ply a - 1" by (simp add: unmakeMove_defined_def)
  then have h: "hist a (nat (ply b - 1)) = hist b (nat (ply b - 1))"
    using hs [of "nat (ply b - 1)"] e(3) by simp
  have pa: "piece_at a s = piece_at b s" for s by (rule piece_at_cong [OF e(1)])
  have r: "restored a = restored b" by (simp add: restored_def h e(3))
  have d: "unmakeMove_defined b m"
    using f(1) by (simp add: unmakeMove_defined_def r pa e(2,3) h)
  have q: "unmakeMove_pcs b m = unmakeMove_pcs a m"
    by (simp add: unmakeMove_pcs_def Let_def r pa e h)
  have "agree a' (set_occ (b\<lparr>ply := ply b - 1, stm := flip (stm b),
                  epSquare := prevEpSquare (hist b (nat (ply b - 1))),
                  castleRights := prevCastleRights (hist b (nat (ply b - 1))),
                  pcs := unmakeMove_pcs b m\<rparr>))"
    using hs by (simp add: agree_def same_position_def f q e(2,3) h)
  with d show ?thesis by (simp add: unmakeMove_def)
qed

lemma len12_list: "length ps = 12 \<Longrightarrow>
  ps = [ps ! 0, ps ! 1, ps ! 2, ps ! 3, ps ! 4, ps ! 5, ps ! 6, ps ! 7, ps ! 8, ps ! 9, ps ! 10, ps ! 11]"
  by (simp add: list_eq_iff_nth_eq all_lt12)

lemma Inv_occupancy: "Inv b \<Longrightarrow> occupancy_ok b"
proof -
  assume inv: "Inv b"
  then have l: "length (pcs b) = 12" by (simp add: Inv_def)
  have "foldr (OR) (pcs b) 0 = whiteOcc (pcs b) OR blackOcc (pcs b)"
    by (subst len12_list [OF l]) (simp add: whiteOcc_def blackOcc_def piece_defs or.assoc)
  with inv show ?thesis by (simp add: occupancy_ok_def Inv_def cix_def)
qed

lemma replicate12: "replicate 12 x = [x, x, x, x, x, x, x, x, x, x, x, x]"
  by (simp add: eval_nat_numeral)

lemma list_update_numeral [simp]:
  "(x # xs)[numeral k := y] = x # xs[pred_numeral k := y]"
  by (simp add: numeral_eq_Suc)

lemma loadFEN_start_fields:
  "pcs (snd (loadFEN b0 ''startpos'')) =
     [65280, 66, 36, 129, 8, 16, 71776119061217280, 4755801206503243776, 2594073385365405696,
      9295429630892703744, 576460752303423488, 1152921504606846976]"
  "stm (snd (loadFEN b0 ''startpos'')) = WHITE"
  "epSquare (snd (loadFEN b0 ''startpos'')) = - 1"
  "castleRights (snd (loadFEN b0 ''startpos'')) = 15"
  "ply (snd (loadFEN b0 ''startpos'')) = 0"
  "hist (snd (loadFEN b0 ''startpos'')) = hist b0"
  "occ (snd (loadFEN b0 ''startpos'')) = [65535, 18446462598732840960]"
  "occAll (snd (loadFEN b0 ''startpos'')) = 18446462598732906495"
  by (simp_all add: loadFEN_def clear_def set_occ_def Let_def piece_defs sq_mask_def replicate12)

lemma Inv_start: "Inv (snd (loadFEN b0 ''startpos''))"
  unfolding Inv_def disjoint_pcs_def all_lt12 ep_ok_def
  by (simp add: loadFEN_start_fields whiteOcc_def blackOcc_def piece_defs)

lemma played_Inv: "played b \<Longrightarrow> Inv b"
proof (induction rule: played.induct)
  case (p_start b0 b)
  then show ?case using Inv_agree Inv_start by blast
next
  case (p_make b0 m b1 b)
  from make_Inv [OF p_make.IH p_make.hyps(2,3)] p_make.hyps(4) show ?case
    using Inv_agree by blast
qed

lemma played_agree: "played a \<Longrightarrow> agree a c \<Longrightarrow> played c"
proof (induction rule: played.cases)
  case (p_start b0 b)
  then show ?case using agree_trans played.p_start by blast
next
  case (p_make b0 m b1 b)
  then show ?case using agree_trans played.p_make by blast
qed

text \<open>A generated move stays pseudo-legal when its flags are dropped.\<close>

lemma entered_ok:
  assumes inv: "Inv b" and ok: "pseudo_ok b x"
  shows "pseudo_ok b (mk_move (from_sq x) (to_sq x) (promo x) 0)"
proof -
  from ok have b: "promo x = 0" "from_sq x < 64" "to_sq x < 64" by (auto simp: pseudo_ok_def)
  from ok consider (a) "flags x = 0" "plain_ok b x"
    | (b) "flags x = MF_ENPASSANT OR MF_CAPTURE" "ep_move_ok b x"
    | (c) "flags x = MF_CASTLE" "castle_ok b x"
    by (auto simp: pseudo_ok_def)
  then have "plain_ok b (mk_move (from_sq x) (to_sq x) (promo x) 0)"
  proof cases
    case a
    then show ?thesis by (simp add: plain_ok_def mk_move_def)
  next
    case b
    show ?thesis
    proof (cases "stm b")
      case WHITE
      with b(2) have "own_piece (stm b) WP \<and> has (pcs b) WP (from_sq x)
          \<and> (to_sq x = from_sq x + 7 \<or> to_sq x = from_sq x + 9)"
        by (simp add: ep_move_ok_def own_piece_def piece_defs)
      then show ?thesis
        unfolding plain_ok_def mk_move_def by (intro exI [of _ WP]) (auto simp: piece_defs)
    next
      case BLACK
      with b(2) have "own_piece (stm b) BP \<and> has (pcs b) BP (from_sq x)
          \<and> (to_sq x + 7 = from_sq x \<or> to_sq x + 9 = from_sq x)"
        by (simp add: ep_move_ok_def own_piece_def piece_defs)
      then show ?thesis
        unfolding plain_ok_def mk_move_def by (intro exI [of _ BP]) (auto simp: piece_defs)
    qed
  next
    case c
    show ?thesis
    proof (cases "stm b")
      case WHITE
      with c(2) have "own_piece (stm b) WK \<and> has (pcs b) WK (from_sq x)"
        by (auto simp: castle_ok_def own_piece_def piece_defs)
      then show ?thesis
        unfolding plain_ok_def mk_move_def by (intro exI [of _ WK]) (auto simp: piece_defs)
    next
      case BLACK
      with c(2) have "own_piece (stm b) BK \<and> has (pcs b) BK (from_sq x)"
        by (auto simp: castle_ok_def own_piece_def piece_defs)
      then show ?thesis
        unfolding plain_ok_def mk_move_def by (intro exI [of _ BK]) (auto simp: piece_defs)
    qed
  qed
  with b show ?thesis by (simp add: pseudo_ok_def mk_move_def)
qed

lemma reachable_played: "reachable b \<Longrightarrow> played b"
proof (induction rule: reachable.induct)
  case (start b0)
  show ?case by (rule p_start [OF agree_refl])
next
  case (make b mv m b')
  from generated_ok [OF played_Inv [OF make.IH] make.hyps(2,3)] have "pseudo_ok b m" .
  from p_make [OF make.IH this make.hyps(4) agree_refl] show ?case .
next
  case (enter b mv x b')
  note inv = played_Inv [OF enter.IH]
  from entered_ok [OF inv generated_ok [OF inv enter.hyps(2,3)]]
  have "pseudo_ok b (mk_move (from_sq x) (to_sq x) (promo x) 0)" .
  from p_make [OF enter.IH this enter.hyps(4) agree_refl] show ?case .
next
  case (unmake b b')
  from unmake.IH show ?case
  proof (cases rule: played.cases)
    case (p_start b0)
    then have "ply b = 0" by (simp add: agree_def same_position_def loadFEN_start_fields)
    with unmake.hyps(2) show ?thesis by simp
  next
    case (p_make b0 m b1)
    note inv0 = played_Inv [OF p_make(1)]
    from roundtrip [OF inv0 p_make(2,3)] obtain r where r: "unmakeMove b1 m = Some r" "agree r b0"
      by blast
    from p_make(4) have pl: "ply b1 = ply b" and hs: "\<And>i. int i < ply b \<Longrightarrow> hist b1 i = hist b i"
      by (simp_all add: agree_def same_position_def)
    have "hist b (nat (ply b - 1)) = hist b1 (nat (ply b1 - 1))"
      using hs [of "nat (ply b - 1)"] unmake.hyps(2) pl by simp
    then have "last_mv (hist b (nat (ply b - 1))) = m"
      by (simp add: makeMove_last [OF p_make(3)])
    with unmake.hyps(3) have u: "unmakeMove b m = Some b'" by simp
    from unmake_agree [OF p_make(4) r(1)] u have "agree r b'" by simp
    with r(2) have "agree b0 b'" using agree_sym agree_trans by blast
    with p_make(1) show ?thesis by (rule played_agree)
  qed
qed

lemma reachable_Inv: "reachable b \<Longrightarrow> Inv b"
  using reachable_played played_Inv by blast


section \<open>Legal lines of play\<close>

lemma generated_make:
  assumes "generateMoves b = Some mv" "m \<in> set mv"
  obtains b' where "makeMove b m = Some b'"
  using generateMoves_mem(2) [OF assms] by blast

lemma pseudo_make_defined:
  assumes inv: "Inv b" and ok: "pseudo_ok b m" and pl: "0 \<le> ply b" "ply b < 512"
  shows "makeMove_defined b m"
proof -
  from ok have m: "promo m = 0" "from_sq m < 64" "to_sq m < 64" by (auto simp: pseudo_ok_def)
  show ?thesis
  proof (rule make_shape [OF inv ok], goal_cases)
    case (1 p)
    have "capSq (stm b) m = int (to_sq m)" using 1(1) by (simp add: capSq_def)
    with 1 m pl show ?case by (simp add: makeMove_defined_def NO_PIECE_def)
  next
    case (2 P E cs)
    with m pl show ?case by (simp add: makeMove_defined_def NO_PIECE_def)
  next
    case (3 K R rf rt)
    with m pl show ?case by (simp add: makeMove_defined_def NO_PIECE_def)
  qed
qed

lemma legalFilter_total:
  "(\<And>m. m \<in> set ms \<Longrightarrow> makeMove_defined b m) \<Longrightarrow> \<exists>r. legalFilter b ms = Some r"
  by (induction ms) (auto simp: makeMove_def)

text \<open>
  On a position that satisfies the invariant, has a king of the side to move and has room in
  the history, \<open>generateMoves\<close> has defined behaviour.
\<close>

lemma generateMoves_total:
  assumes inv: "Inv b" and king: "pcs b ! (if stm b = WHITE then WK else BK) \<noteq> 0"
    and pl: "0 \<le> ply b" "ply b < 512"
  shows "\<exists>mv. generateMoves b = Some mv"
proof -
  have e: "\<not> (epSquare b \<noteq> - 1 \<and> \<not> (0 \<le> epSquare b \<and> epSquare b < 64))"
    using Inv_ep [OF inv] by (auto simp: ep_ok_def)
  have "\<exists>r. legalFilter b (pseudoMoves b) = Some r"
    by (rule legalFilter_total) (rule pseudo_make_defined [OF inv pseudoMoves_ok [OF inv king] pl])
  with king e show ?thesis by (simp add: generateMoves_def)
qed

lemma generateMoves_memI:
  assumes "generateMoves b = Some mv" "m \<in> set (pseudoMoves b)"
    "makeMove b m = Some t" "\<not> inCheck t (stm b)"
  shows "m \<in> set mv"
proof -
  from assms(1) have "legalFilter b (pseudoMoves b) = Some mv"
    by (auto simp: generateMoves_def split: if_splits)
  from legalFilter_eq [OF this] assms(2-4) show ?thesis by simp
qed

lemma legal_line_generated:
  assumes r: "reachable b" and l: "legal_line b (m # ms)"
  shows "\<exists>mv. generateMoves b = Some mv \<and> m \<in> set mv"
proof -
  from l obtain t where
    k: "pcs b ! (if stm b = WHITE then WK else BK) \<noteq> 0" and pl: "0 \<le> ply b" "ply b < 512"
    and mem: "m \<in> set (pseudoMoves b)" and mk: "makeMove b m = Some t"
    and chk: "\<not> inCheck t (stm b)"
    by (auto split: option.splits)
  note inv = reachable_Inv [OF r]
  from generateMoves_total [OF inv k pl] obtain mv where g: "generateMoves b = Some mv" ..
  from generateMoves_memI [OF g mem mk chk] g show ?thesis by blast
qed

lemma legal_line_reachable:
  "reachable b \<Longrightarrow> legal_line b ms \<Longrightarrow> \<exists>b'. loopM makeMove ms b = Some b' \<and> reachable b'"
proof (induction ms arbitrary: b)
  case Nil
  then show ?case by simp
next
  case (Cons m ms)
  from legal_line_generated [OF Cons.prems] obtain mv where
    g: "generateMoves b = Some mv" "m \<in> set mv" by blast
  from Cons.prems(2) obtain t where mk: "makeMove b m = Some t" and rest: "legal_line t ms"
    by (auto split: option.splits)
  from reachable.make [OF Cons.prems(1) g mk] have "reachable t" .
  from Cons.IH [OF this rest] mk show ?case by simp
qed

lemma reachable_startpos: "reachable startpos"
  unfolding startpos_def by (rule reachable.start)

lemma after_reachable: "legal_line startpos ms \<Longrightarrow> reachable (after ms)"
  using legal_line_reachable [OF reachable_startpos, of ms] by (auto simp: after_def)


section \<open>Evaluation on concrete positions\<close>

lemma ctz_num_spec:
  "ctz_num k < 64 \<Longrightarrow>
     bit (numeral k :: Bitboard) (ctz_num k) \<and> (\<forall>j<ctz_num k. \<not> bit (numeral k :: Bitboard) j)"
proof (induction k)
  case One
  then show ?case by simp
next
  case (Bit0 k)
  then have c: "ctz_num k < 63" by simp
  with Bit0.IH have ih: "bit (numeral k :: Bitboard) (ctz_num k)"
    "\<And>j. j < ctz_num k \<Longrightarrow> \<not> bit (numeral k :: Bitboard) j"
    by auto
  have "bit (numeral (num.Bit0 k) :: Bitboard) (Suc (ctz_num k))"
    using ih(1) c by (simp add: bit_simps)
  moreover have "\<not> bit (numeral (num.Bit0 k) :: Bitboard) j" if "j < Suc (ctz_num k)" for j
    using that ih(2) by (cases j) (auto simp: bit_simps)
  ultimately show ?case by simp
next
  case (Bit1 k)
  then show ?case by simp
qed

lemma lsb_numeral: "ctz_num k < 64 \<Longrightarrow> lsb (numeral k) = int (ctz_num k)"
  using ctz_num_spec [of k] lsb_unique [of "numeral k" "ctz_num k"] by blast

lemma lsb_one: "lsb 1 = 0"
  using lsb_unique [of 1 0] by simp

lemma numeral_neq0: "ctz_num k < 64 \<Longrightarrow> ((numeral k :: Bitboard) = 0) = False"
proof -
  assume "ctz_num k < 64"
  then have "bit (numeral k :: Bitboard) (ctz_num k)" using ctz_num_spec [of k] by blast
  then have "(numeral k :: Bitboard) \<noteq> 0" by (metis bit_0_eq bot_apply bot_bool_def)
  then show ?thesis by blast
qed

lemma startpos_eq:
  "startpos = \<lparr>pcs = [65280, 66, 36, 129, 8, 16, 71776119061217280, 4755801206503243776,
       2594073385365405696, 9295429630892703744, 576460752303423488, 1152921504606846976],
     occ = [65535, 18446462598732840960], occAll = 18446462598732906495, epSquare = - 1,
     castleRights = 15, stm = WHITE, hist = (\<lambda>_. State0), ply = 0\<rparr>"
  by (simp add: startpos_def loadFEN_def clear_def set_occ_def Let_def piece_defs sq_mask_def
      replicate12 Board0_def)

lemma upt12: "[0..<12] = [0, 1, 2, 3, 4, 5, 6, 7, 8, 9, 10, 11]"
  by code_simp

lemma list_ex_wcong: "xs = ys \<Longrightarrow> list_ex P xs = list_ex P ys"
  by simp

lemma map_wcong: "xs = ys \<Longrightarrow> map f xs = map f ys"
  by simp

lemma fold_wcong: "xs = ys \<Longrightarrow> s = t \<Longrightarrow> fold f xs s = fold f ys t"
  by simp

lemma find_wcong: "xs = ys \<Longrightarrow> find P xs = find P ys"
  by simp

lemmas ev_cong = let_weak_cong option.case_cong_weak prod.case_cong_weak list.case_cong_weak
  list_ex_wcong map_wcong fold_wcong find_wcong

lemma clr_ev: "clr ps p sq = ps[p := ps ! p AND NOT (push_bit (nat sq) 1)]"
  by (simp add: clr_def sq_mask_def)

lemma put_ev: "put ps p sq = ps[p := ps ! p OR push_bit (nat sq) 1]"
  by (simp add: put_def sq_mask_def)

lemma squares_ev: "squares m = (if m = 0 then [] else lsb m # squares (m AND (m - 1)))"
proof (cases "m = 0")
  case True
  then show ?thesis by (subst squares.simps) simp
next
  case False
  note s = lsb_spec [OF False]
  show ?thesis
    by (subst squares.simps) (use False s in \<open>simp add: poplsb_def Let_def lsb_sq_mask\<close>)
qed

lemma step_mask_ev:
  "step_mask steps sq =
    fold (\<lambda>(dr, df) msk.
             if on_board (sq div 8 + dr) (sq mod 8 + df)
             then msk OR push_bit (nat ((sq div 8 + dr) * 8 + (sq mod 8 + df))) 1 else msk)
          steps 0"
  by (simp add: step_mask_def Let_def sq_mask_def cong: if_cong)

lemma epWhite_ev:
  "epWhite b =
    (if epSquare b \<noteq> - 1 then
        (if (pcs b ! WP AND NOT FILE_A) AND drop_bit 7 (push_bit (nat (epSquare b)) 1) \<noteq> 0
         then [mk_move (u16 (epSquare b - 7)) (u16 (epSquare b)) 0 (MF_ENPASSANT OR MF_CAPTURE)]
         else [])
        @
        (if (pcs b ! WP AND NOT FILE_H) AND drop_bit 9 (push_bit (nat (epSquare b)) 1) \<noteq> 0
         then [mk_move (u16 (epSquare b - 9)) (u16 (epSquare b)) 0 (MF_ENPASSANT OR MF_CAPTURE)]
         else [])
     else [])"
  by (simp add: epWhite_def Let_def sq_mask_def)

lemma epBlack_ev:
  "epBlack b =
    (if epSquare b \<noteq> - 1 then
        (if (pcs b ! BP AND NOT FILE_H) AND push_bit 7 (push_bit (nat (epSquare b)) 1) \<noteq> 0
         then [mk_move (u16 (epSquare b + 7)) (u16 (epSquare b)) 0 (MF_ENPASSANT OR MF_CAPTURE)]
         else [])
        @
        (if (pcs b ! BP AND NOT FILE_A) AND push_bit 9 (push_bit (nat (epSquare b)) 1) \<noteq> 0
         then [mk_move (u16 (epSquare b + 9)) (u16 (epSquare b)) 0 (MF_ENPASSANT OR MF_CAPTURE)]
         else [])
     else [])"
  by (simp add: epBlack_def Let_def sq_mask_def)

lemma makeMove_ev:
  "makeMove b m =
    (let mp = piece_at b (int (from_sq m));
         cp = (if is_ep m then (if stm b = WHITE then BP else WP) else piece_at b (int (to_sq m)));
         cs = capSq (stm b) m
     in
     if \<not> (0 \<le> ply b \<and> ply b < 512 \<and> from_sq m < 64 \<and> to_sq m < 64
             \<and> (cp \<noteq> NO_PIECE \<longrightarrow> 0 \<le> cs \<and> cs < 64) \<and> mp \<noteq> NO_PIECE
             \<and> (promo m \<noteq> 0 \<longrightarrow> promo m < 12)) then None
     else
       let ps1 = (if cp \<noteq> NO_PIECE then clr (pcs b) cp cs else pcs b);
           ps2 = clr ps1 mp (int (from_sq m));
           ps3 = (if promo m \<noteq> 0 then put ps2 (promo m) (int (to_sq m))
                  else if is_castle m then castle_rook (put ps2 mp (int (to_sq m))) (stm b) (to_sq m)
                  else put ps2 mp (int (to_sq m)));
           e = (if promo m \<noteq> 0 \<or> is_castle m then - 1
                else if mp = BP \<and> int (from_sq m) - int (to_sq m) = 16 then int (from_sq m) - 8
                else if mp = WP \<and> int (to_sq m) - int (from_sq m) = 16 then int (from_sq m) + 8
                else - 1);
           w = ps3 ! WP OR ps3 ! WN OR ps3 ! WB OR ps3 ! WR OR ps3 ! WQ OR ps3 ! WK;
           k = ps3 ! BP OR ps3 ! BN OR ps3 ! BB OR ps3 ! BR OR ps3 ! BQ OR ps3 ! BK
       in Some (b\<lparr>hist := (hist b)(nat (ply b) :=
                             \<lparr>last_mv = m, captured = int cp,
                              prevEpSquare = epSquare b, prevCastleRights = castleRights b\<rparr>),
                   pcs := ps3, epSquare := e,
                   castleRights := update_rights (castleRights b) mp (from_sq m) cp (to_sq m),
                   occ := [w, k], occAll := w OR k, stm := flip (stm b), ply := ply b + 1\<rparr>))"
  by (simp add: makeMove_def makeMove_defined_def makeMove_pcs_def makeMove_ep_def
      movingPiece_def capturedPiece_def set_occ_def Let_def)

lemmas ev =
  piece_defs Let_def piece_at_def FILE_A_def FILE_H_def RANK_2_def
  RANK_7_def flag_defs mk_move_def u16_def cix_def flip_def clr_ev put_ev revoke_def
  update_rights_def castle_rook_def uncastle_rook_def is_ep_def is_castle_def
  capSq_def makeMove_ev
  set_occ_def on_board_def knight_steps_def king_steps_def diag_dirs_def orth_dirs_def step_hit_def
  inCheck_def step_mask_ev knightAttacks_def kingAttacks_def attackedBy_def
  pushMovesFromMask_def pawnMoves_def slideInDirection_def knightPart_def sliderPart_def
  kingPart_def castleWhite_def castleBlack_def epWhite_ev epBlack_ev pawnsWhite_def
  pawnsBlack_def pseudoMoves_def generateMoves_def
  squares_ev ray_hit.simps slide_loop.simps
  lsb_numeral lsb_one numeral_neq0 upt12 and_sq_mask_neq0 and_sq_mask_eq0 and_masks_eq0
  after_def startpos_eq

lemma start_e2e4: "legal_line startpos [mk_move 12 28 0 0]"
  by (simp add: ev cong: ev_cong)

lemma cap_line: "legal_line startpos [mk_move 12 28 0 0, mk_move 51 35 0 0]"
  by (simp add: ev cong: ev_cong)

lemma cap_reachable: "reachable cap_pos"
  unfolding cap_pos_def by (rule after_reachable [OF cap_line])

lemma cap_exd5: "legal_line cap_pos [mk_move 28 35 0 0]"
  by (simp add: cap_pos_def ev cong: ev_cong)

lemma cap_pieces: "piece_at cap_pos 28 = WP" "piece_at cap_pos 35 = BP" "stm cap_pos = WHITE"
  by (simp_all add: cap_pos_def ev cong: ev_cong)


section \<open>makeMove followed by unmakeMove\<close>

text \<open>
  For every move \<open>m\<close> that \<open>generateMoves\<close> returns on a reachable position, \<open>makeMove\<close>
  and then \<open>unmakeMove\<close> of \<open>m\<close> are defined and restore the twelve piece bitboards, both
  per-side occupancies, the combined occupancy, the side to move, the en-passant target, the
  castling rights and the ply. The generator returns castling and en-passant moves, and no
  promotion.
\<close>

lemma generated_roundtrip:
  assumes "reachable b" "generateMoves b = Some mv" "m \<in> set mv"
  shows "\<exists>b' b''. makeMove b m = Some b' \<and> unmakeMove b' m = Some b''
           \<and> pcs b'' = pcs b \<and> occ b'' = occ b \<and> occAll b'' = occAll b \<and> stm b'' = stm b
           \<and> epSquare b'' = epSquare b \<and> castleRights b'' = castleRights b \<and> ply b'' = ply b"
proof -
  note inv = reachable_Inv [OF assms(1)]
  note ok = generated_ok [OF inv assms(2,3)]
  from assms(2,3) obtain b' where mk: "makeMove b m = Some b'" by (rule generated_make)
  from roundtrip [OF inv ok mk] obtain b'' where "unmakeMove b' m = Some b''" "agree b'' b"
    by blast
  with mk show ?thesis by (auto simp: agree_def same_position_def)
qed

text \<open>The capture \<open>exd5\<close> after 1. e4 d5 is such a move.\<close>

lemma generated_roundtrip_exd5:
  "reachable cap_pos
   \<and> (\<exists>mv. generateMoves cap_pos = Some mv \<and> mk_move 28 35 0 0 \<in> set mv)
   \<and> (\<exists>b' b''. makeMove cap_pos (mk_move 28 35 0 0) = Some b'
         \<and> unmakeMove b' (mk_move 28 35 0 0) = Some b''
         \<and> pcs b'' = pcs cap_pos \<and> occ b'' = occ cap_pos \<and> occAll b'' = occAll cap_pos
         \<and> stm b'' = stm cap_pos \<and> epSquare b'' = epSquare cap_pos
         \<and> castleRights b'' = castleRights cap_pos \<and> ply b'' = ply cap_pos)"
proof -
  from legal_line_generated [OF cap_reachable cap_exd5] obtain mv where
    g: "generateMoves cap_pos = Some mv" "mk_move 28 35 0 0 \<in> set mv" by blast
  from generated_roundtrip [OF cap_reachable g] cap_reachable g show ?thesis by blast
qed


section \<open>The occupancy invariant\<close>

text \<open>
  Claim C8. Every reachable position satisfies the occupancy predicate: the combined occupancy
  is the union of the two per-side occupancies, which is the union of the twelve piece
  bitboards, and no square is set in two piece bitboards. \<open>makeMove\<close> of a generated move
  and the \<open>unmakeMove\<close> that follows it both preserve the predicate.
\<close>

theorem occupancy_invariant:
  assumes "reachable b"
  shows "occupancy_ok b
    \<and> (\<forall>mv m b'. generateMoves b = Some mv \<and> m \<in> set mv \<and> makeMove b m = Some b'
          \<longrightarrow> occupancy_ok b'
              \<and> (\<exists>b''. unmakeMove b' m = Some b'' \<and> occupancy_ok b''))"
proof (intro conjI allI impI)
  note inv = reachable_Inv [OF assms]
  show "occupancy_ok b" by (rule Inv_occupancy [OF inv])
  fix mv m b'
  assume a: "generateMoves b = Some mv \<and> m \<in> set mv \<and> makeMove b m = Some b'"
  then have ok: "pseudo_ok b m" using generated_ok [OF inv] by blast
  from a have mk: "makeMove b m = Some b'" by simp
  show "occupancy_ok b'" by (rule Inv_occupancy [OF make_Inv [OF inv ok mk]])
  from roundtrip [OF inv ok mk] obtain b'' where u: "unmakeMove b' m = Some b''" "agree b'' b"
    by blast
  from Inv_agree [OF agree_sym [OF u(2)] inv] have "occupancy_ok b''" by (rule Inv_occupancy)
  with u(1) show "\<exists>b''. unmakeMove b' m = Some b'' \<and> occupancy_ok b''" by blast
qed

text \<open>The start position and \<open>e2e4\<close>.\<close>

theorem occupancy_invariant_witness:
  "reachable startpos \<and> occupancy_ok startpos
   \<and> (\<exists>mv b'. generateMoves startpos = Some mv \<and> mk_move 12 28 0 0 \<in> set mv
         \<and> makeMove startpos (mk_move 12 28 0 0) = Some b' \<and> occupancy_ok b'
         \<and> (\<exists>b''. unmakeMove b' (mk_move 12 28 0 0) = Some b'' \<and> occupancy_ok b''))"
proof -
  from legal_line_generated [OF reachable_startpos start_e2e4] obtain mv where
    g: "generateMoves startpos = Some mv" "mk_move 12 28 0 0 \<in> set mv" by blast
  from g obtain b' where mk: "makeMove startpos (mk_move 12 28 0 0) = Some b'"
    by (rule generated_make)
  from occupancy_invariant [OF reachable_startpos] g mk reachable_startpos
  show ?thesis by blast
qed


section \<open>The en-passant target\<close>

text \<open>
  Claim C7. After \<open>makeMove\<close> of any move (for which it is defined), the en-passant target is
  set exactly when the move was a two-square pawn push, and it is then the skipped square; the
  side to move is toggled. So a move that is not a two-square push clears the target, which
  therefore lasts one ply. For a generated move on a reachable position, a two-square pawn
  push is just a pawn move whose origin and destination are 16 squares apart.
\<close>

theorem ep_target_after_move:
  assumes "makeMove b m = Some b'"
  shows "(epSquare b' \<noteq> - 1 \<longleftrightarrow> double_push b m)
       \<and> (double_push b m \<longrightarrow> epSquare b' = skipped m)
       \<and> stm b' = flip (stm b)
       \<and> (reachable b \<and> (\<exists>mv. generateMoves b = Some mv \<and> m \<in> set mv) \<longrightarrow>
            double_push b m
              = ((movingPiece b m = WP \<or> movingPiece b m = BP)
                  \<and> (to_sq m = from_sq m + 16 \<or> from_sq m = to_sq m + 16)))"
proof -
  note f = makeMove_fields [OF assms]
  have nb: "WP \<noteq> BP" by (simp add: piece_defs)
  have a: "(epSquare b' \<noteq> - 1 \<longleftrightarrow> double_push b m)
       \<and> (double_push b m \<longrightarrow> epSquare b' = skipped m)
       \<and> stm b' = flip (stm b)"
    unfolding f(3,5) makeMove_ep_def double_push_def skipped_def using nb
    by auto
  have g: "double_push b m
              = ((movingPiece b m = WP \<or> movingPiece b m = BP)
                  \<and> (to_sq m = from_sq m + 16 \<or> from_sq m = to_sq m + 16))"
    if r: "reachable b" and gen: "generateMoves b = Some mv" "m \<in> set mv" for mv
  proof -
    note inv = reachable_Inv [OF r]
    note ok = generated_ok [OF inv gen]
    note len = Inv_len [OF inv] and dj = Inv_dj [OF inv]
    from ok have p: "promo m = 0" by (simp add: pseudo_ok_def)
    from ok consider (a) "flags m = 0" "plain_ok b m"
      | (b) "flags m = MF_ENPASSANT OR MF_CAPTURE" "ep_move_ok b m"
      | (c) "flags m = MF_CASTLE" "castle_ok b m"
      by (auto simp: pseudo_ok_def)
    then show ?thesis
    proof cases
      case a
      from a(2) obtain q where q: "own_piece (stm b) q" "has (pcs b) q (from_sq m)"
        "q = WP \<longrightarrow> from_sq m \<le> to_sq m" "q = BP \<longrightarrow> to_sq m \<le> from_sq m"
        by (auto simp: plain_ok_def)
      have "movingPiece b m = q"
        unfolding movingPiece_def
        by (rule piece_at_has [OF len dj own_piece_lt [OF q(1)]]) (simp add: q(2))
      with q(3,4) p a(1) nb show ?thesis
        by (auto simp: double_push_def is_castle_def flag_defs)
    next
      case b
      from b(2) have h: "has (pcs b) (if stm b = WHITE then WP else BP) (from_sq m)"
        and s: "if stm b = WHITE then to_sq m = from_sq m + 7 \<or> to_sq m = from_sq m + 9
                else to_sq m + 7 = from_sq m \<or> to_sq m + 9 = from_sq m"
        by (simp_all add: ep_move_ok_def)
      have "movingPiece b m = (if stm b = WHITE then WP else BP)"
        unfolding movingPiece_def
        by (rule piece_at_has [OF len dj]) (use h in \<open>auto simp: piece_defs\<close>)
      with s nb show ?thesis
        by (auto simp: double_push_def split: if_splits)
    next
      case c
      have k: "has (pcs b) (if stm b = WHITE then WK else BK) (from_sq m)"
        using c(2) by (auto simp: castle_ok_def)
      have "movingPiece b m = (if stm b = WHITE then WK else BK)"
        unfolding movingPiece_def
        by (rule piece_at_has [OF len dj]) (use k in \<open>auto simp: piece_defs\<close>)
      with c(1) show ?thesis
        by (auto simp: double_push_def is_castle_def flag_defs piece_defs)
    qed
  qed
  from a g show ?thesis by blast
qed

text \<open>
  \<open>e2e4\<close> from the start sets the target to \<open>e3\<close> (square 20) and gives black the move;
  the reply \<open>Nf6\<close> clears it.
\<close>

theorem ep_target_after_move_witness:
  "makeMove startpos (mk_move 12 28 0 0) = Some (after [mk_move 12 28 0 0])
   \<and> reachable startpos
   \<and> (\<exists>mv. generateMoves startpos = Some mv \<and> mk_move 12 28 0 0 \<in> set mv)
   \<and> movingPiece startpos (mk_move 12 28 0 0) = WP
   \<and> double_push startpos (mk_move 12 28 0 0)
   \<and> epSquare (after [mk_move 12 28 0 0]) = 20
   \<and> stm (after [mk_move 12 28 0 0]) = BLACK
   \<and> makeMove (after [mk_move 12 28 0 0]) (mk_move 62 45 0 0)
       = Some (after [mk_move 12 28 0 0, mk_move 62 45 0 0])
   \<and> \<not> double_push (after [mk_move 12 28 0 0]) (mk_move 62 45 0 0)
   \<and> epSquare (after [mk_move 12 28 0 0, mk_move 62 45 0 0]) = - 1
   \<and> stm (after [mk_move 12 28 0 0, mk_move 62 45 0 0]) = WHITE"
proof -
  have m1: "makeMove startpos (mk_move 12 28 0 0) = Some (after [mk_move 12 28 0 0])"
    by (simp add: ev cong: ev_cong)
  have m2: "makeMove (after [mk_move 12 28 0 0]) (mk_move 62 45 0 0)
       = Some (after [mk_move 12 28 0 0, mk_move 62 45 0 0])"
    by (simp add: ev cong: ev_cong)
  note g = legal_line_generated [OF reachable_startpos start_e2e4]
  have mp: "movingPiece startpos (mk_move 12 28 0 0) = WP"
    by (simp add: movingPiece_def ev cong: ev_cong)
  have "to_sq (mk_move 12 28 0 0) = from_sq (mk_move 12 28 0 0) + 16"
    by (simp add: mk_move_def)
  with ep_target_after_move [OF m1] reachable_startpos g mp
  have d1: "double_push startpos (mk_move 12 28 0 0)" by blast
  have d2: "\<not> double_push (after [mk_move 12 28 0 0]) (mk_move 62 45 0 0)"
    by (simp add: double_push_def movingPiece_def ev cong: ev_cong)
  have s: "stm startpos = WHITE" "skipped (mk_move 12 28 0 0) = 20"
    by (simp_all add: startpos_eq skipped_def mk_move_def)
  from ep_target_after_move [OF m1] d1 s
  have e1: "epSquare (after [mk_move 12 28 0 0]) = 20" "stm (after [mk_move 12 28 0 0]) = BLACK"
    by (simp_all add: flip_def)
  from ep_target_after_move [OF m2] d2 e1(2)
  have e2: "epSquare (after [mk_move 12 28 0 0, mk_move 62 45 0 0]) = - 1"
    "stm (after [mk_move 12 28 0 0, mk_move 62 45 0 0]) = WHITE"
    by (simp_all add: flip_def)
  from m1 m2 reachable_startpos g mp d1 d2 e1 e2 show ?thesis by blast
qed


section \<open>loadFEN\<close>

text \<open>
  Claim C9. \<open>loadFEN\<close> returns true exactly when its argument is the string \<open>startpos\<close>.
  For every other argument it returns false and leaves the board cleared: all piece bitboards
  and occupancies empty, white to move, no en-passant target, no castling rights, ply 0 (the
  history array is not touched). So a failed call does not keep the previous position: a board
  that held a piece is changed.
\<close>

theorem loadFEN_startpos_only:
  "fst (loadFEN b fen) = (fen = ''startpos'')
   \<and> (fen \<noteq> ''startpos'' \<longrightarrow>
        pcs (snd (loadFEN b fen)) = replicate 12 0
        \<and> occ (snd (loadFEN b fen)) = [0, 0] \<and> occAll (snd (loadFEN b fen)) = 0
        \<and> stm (snd (loadFEN b fen)) = WHITE \<and> epSquare (snd (loadFEN b fen)) = - 1
        \<and> castleRights (snd (loadFEN b fen)) = 0 \<and> ply (snd (loadFEN b fen)) = 0
        \<and> hist (snd (loadFEN b fen)) = hist b
        \<and> (pcs b \<noteq> replicate 12 0 \<longrightarrow> snd (loadFEN b fen) \<noteq> b))"
proof -
  have a: "fst (loadFEN b fen) = (fen = ''startpos'')"
    by (simp add: loadFEN_def Let_def)
  have c: "pcs (snd (loadFEN b fen)) = replicate 12 0
        \<and> occ (snd (loadFEN b fen)) = [0, 0] \<and> occAll (snd (loadFEN b fen)) = 0
        \<and> stm (snd (loadFEN b fen)) = WHITE \<and> epSquare (snd (loadFEN b fen)) = - 1
        \<and> castleRights (snd (loadFEN b fen)) = 0 \<and> ply (snd (loadFEN b fen)) = 0
        \<and> hist (snd (loadFEN b fen)) = hist b" if "fen \<noteq> ''startpos''"
    using that by (simp add: loadFEN_def clear_def Let_def)
  have d: "snd (loadFEN b fen) \<noteq> b" if "fen \<noteq> ''startpos''" "pcs b \<noteq> replicate 12 0"
  proof
    assume "snd (loadFEN b fen) = b"
    then have "pcs (snd (loadFEN b fen)) = pcs b" by simp
    with c [OF that(1)] that(2) show False by simp
  qed
  from a c d show ?thesis by blast
qed

text \<open>A FEN string given to a board that holds the start position.\<close>

theorem loadFEN_startpos_only_witness:
  "\<not> fst (loadFEN startpos ''8/8/8/8/8/8/8/K6k w - - 0 1'')
   \<and> pcs (snd (loadFEN startpos ''8/8/8/8/8/8/8/K6k w - - 0 1'')) = replicate 12 0
   \<and> stm (snd (loadFEN startpos ''8/8/8/8/8/8/8/K6k w - - 0 1'')) = WHITE
   \<and> epSquare (snd (loadFEN startpos ''8/8/8/8/8/8/8/K6k w - - 0 1'')) = - 1
   \<and> castleRights (snd (loadFEN startpos ''8/8/8/8/8/8/8/K6k w - - 0 1'')) = 0
   \<and> ply (snd (loadFEN startpos ''8/8/8/8/8/8/8/K6k w - - 0 1'')) = 0
   \<and> pcs startpos \<noteq> replicate 12 0
   \<and> snd (loadFEN startpos ''8/8/8/8/8/8/8/K6k w - - 0 1'') \<noteq> startpos
   \<and> fst (loadFEN startpos ''startpos'')"
proof -
  have n: "''8/8/8/8/8/8/8/K6k w - - 0 1'' \<noteq> ''startpos''" by simp
  have p: "pcs startpos \<noteq> replicate 12 0" by (simp add: startpos_eq replicate12)
  from loadFEN_startpos_only [of startpos "''8/8/8/8/8/8/8/K6k w - - 0 1''"] n p
    loadFEN_startpos_only [of startpos "''startpos''"]
  show ?thesis by simp
qed


section \<open>The flags of generated moves\<close>




section \<open>Move ordering\<close>

lemma ex_lt12: "(\<exists>p<12. P p) \<longleftrightarrow>
    P 0 \<or> P 1 \<or> P 2 \<or> P 3 \<or> P 4 \<or> P 5 \<or> P 6 \<or> P 7 \<or> P 8 \<or> P 9 \<or> P 10 \<or> P (11::nat)"
  using all_lt12 [of "\<lambda>p. \<not> P p"] by blast

lemma opponent_on:
  assumes inv: "Inv b" and n: "n < 64"
  shows "(occ b ! cix (if stm b = WHITE then BLACK else WHITE) AND sq_mask (int n) \<noteq> 0)
          = (\<exists>p. own_piece (flip (stm b)) p \<and> has (pcs b) p n)"
proof -
  from inv have o: "occ b = [whiteOcc (pcs b), blackOcc (pcs b)]" by (simp add: Inv_def)
  have e: "(\<exists>p. own_piece c p \<and> has (pcs b) p n) = (\<exists>p<12. own_piece c p \<and> has (pcs b) p n)"
    for c using own_piece_lt by blast
  show ?thesis
    unfolding e ex_lt12 and_sq_mask_neq0 o
    by (cases "stm b")
      (simp_all add: cix_def flip_def own_piece_def whiteOcc_def blackOcc_def has_def
        piece_defs bit_or_iff)
qed

lemma orderMoves_descending:
  "sorted_wrt (\<lambda>x y. mvvLva b y \<le> mvvLva b x) (orderMoves b ms)"
proof -
  have "sorted (map (\<lambda>m. - mvvLva b m) (orderMoves b ms))" by (simp add: orderMoves_def)
  then show ?thesis by (simp add: sorted_map)
qed

lemma orderMoves_stable:
  "filter (\<lambda>m. mvvLva b m = k) (orderMoves b ms) = filter (\<lambda>m. mvvLva b m = k) ms"
  using sort_key_stable [of "\<lambda>m. - mvvLva b m" "- k" ms] by (simp add: orderMoves_def)

text \<open>
  Claim C6, with the factor the code has. On a reachable position, the ordering score of a
  generated move is 900 for an en-passant capture (ten times the pawn's value minus the pawn's
  value), ten times the value of the piece on the destination minus the value of the moving
  piece when the destination holds an opposing piece, and 0 otherwise. The moving piece is a
  piece of the side to move and a captured piece is one of the other side, and the values are
  fixed: pawn 100, knight 320, bishop 330, rook 500, queen 900, king 0, for both colours.
  \<open>orderMoves\<close> sorts in descending score order and keeps the moves of equal score in their
  order.
\<close>

theorem mvvLva_score:
  assumes "reachable b" "generateMoves b = Some mv" "m \<in> set mv"
  shows "mvvLva b m =
          (if flags m AND MF_ENPASSANT \<noteq> 0 then 10 * 100 - 100
           else if \<exists>p. own_piece (flip (stm b)) p \<and> has (pcs b) p (to_sq m)
             then 10 * pieceValueForMVV (piece_at b (int (to_sq m)))
                    - pieceValueForMVV (piece_at b (int (from_sq m)))
           else 0)
       \<and> own_piece (stm b) (piece_at b (int (from_sq m)))
       \<and> ((\<exists>p. own_piece (flip (stm b)) p \<and> has (pcs b) p (to_sq m))
            \<longrightarrow> own_piece (flip (stm b)) (piece_at b (int (to_sq m))))
       \<and> map pieceValueForMVV [WP, WN, WB, WR, WQ, WK] = [100, 320, 330, 500, 900, 0]
       \<and> map pieceValueForMVV [BP, BN, BB, BR, BQ, BK] = [100, 320, 330, 500, 900, 0]
       \<and> sorted_wrt (\<lambda>x y. mvvLva b y \<le> mvvLva b x) (orderMoves b mv)
       \<and> (\<forall>k. filter (\<lambda>x. mvvLva b x = k) (orderMoves b mv) = filter (\<lambda>x. mvvLva b x = k) mv)"
proof -
  note inv = reachable_Inv [OF assms(1)]
  note ok = generated_ok [OF inv assms(2,3)]
  note len = Inv_len [OF inv] and dj = Inv_dj [OF inv]
  from ok have t: "to_sq m < 64" by (simp add: pseudo_ok_def)
  have ic: "isCapture b m = ((\<exists>p. own_piece (flip (stm b)) p \<and> has (pcs b) p (to_sq m))
      \<or> flags m AND MF_ENPASSANT \<noteq> 0)"
    unfolding isCapture_def Let_def opponent_on [OF inv t] ..
  from ok consider (a) "flags m = 0" "plain_ok b m"
    | (b) "flags m = MF_ENPASSANT OR MF_CAPTURE" "ep_move_ok b m"
    | (c) "flags m = MF_CASTLE" "castle_ok b m"
    by (auto simp: pseudo_ok_def)
  then have sc: "mvvLva b m =
          (if flags m AND MF_ENPASSANT \<noteq> 0 then 10 * 100 - 100
           else if \<exists>p. own_piece (flip (stm b)) p \<and> has (pcs b) p (to_sq m)
             then 10 * pieceValueForMVV (piece_at b (int (to_sq m)))
                    - pieceValueForMVV (piece_at b (int (from_sq m)))
           else 0)
       \<and> own_piece (stm b) (piece_at b (int (from_sq m)))"
  proof cases
    case a
    from a(2) obtain q where q: "own_piece (stm b) q" "has (pcs b) q (from_sq m)"
      by (auto simp: plain_ok_def)
    have "piece_at b (int (from_sq m)) = q"
      by (rule piece_at_has [OF len dj own_piece_lt [OF q(1)]]) (simp add: q(2))
    with q(1) a(1) show ?thesis by (auto simp: mvvLva_def ic Let_def flag_defs)
  next
    case b
    from b(2) have "has (pcs b) (if stm b = WHITE then WP else BP) (nat (int (from_sq m)))"
      by (simp add: ep_move_ok_def)
    then have "piece_at b (int (from_sq m)) = (if stm b = WHITE then WP else BP)"
      by (intro piece_at_has [OF len dj]) (auto simp: piece_defs)
    with b(1) show ?thesis
      by (simp add: mvvLva_def ic Let_def flag_defs pieceValueForMVV_def piece_defs
          own_piece_def)
  next
    case c
    have k: "has (pcs b) (if stm b = WHITE then WK else BK) (nat (int (from_sq m)))"
      using c(2) by (auto simp: castle_ok_def)
    then have "piece_at b (int (from_sq m)) = (if stm b = WHITE then WK else BK)"
      by (intro piece_at_has [OF len dj]) (auto simp: piece_defs)
    then have "own_piece (stm b) (piece_at b (int (from_sq m)))"
      by (simp add: own_piece_def piece_defs)
    with c(1) show ?thesis by (auto simp: mvvLva_def ic Let_def flag_defs)
  qed
  have vi: "own_piece (flip (stm b)) (piece_at b (int (to_sq m)))"
    if "\<exists>p. own_piece (flip (stm b)) p \<and> has (pcs b) p (to_sq m)"
  proof -
    from that obtain p where p: "own_piece (flip (stm b)) p" "has (pcs b) p (to_sq m)" by blast
    have "piece_at b (int (to_sq m)) = p"
      by (rule piece_at_has [OF len dj own_piece_lt [OF p(1)]]) (simp add: p(2))
    with p(1) show ?thesis by simp
  qed
  have tab: "map pieceValueForMVV [WP, WN, WB, WR, WQ, WK] = [100, 320, 330, 500, 900, 0]"
    "map pieceValueForMVV [BP, BN, BB, BR, BQ, BK] = [100, 320, 330, 500, 900, 0]"
    by (simp_all add: pieceValueForMVV_def piece_defs)
  from sc vi tab orderMoves_descending [of b mv] orderMoves_stable [of b _ mv]
  show ?thesis by blast
qed

lemma cap_score: "mvvLva cap_pos (mk_move 28 35 0 0) = 900"
  by (simp add: mvvLva_def isCapture_def pieceValueForMVV_def cap_pos_def ev cong: ev_cong)

text \<open>
  After 1. e4 d5 the capture \<open>exd5\<close> (pawn takes pawn) is scored \<open>10 * 100 - 100\<close>.
\<close>

theorem mvvLva_score_witness:
  "reachable cap_pos
   \<and> (\<exists>mv. generateMoves cap_pos = Some mv \<and> mk_move 28 35 0 0 \<in> set mv
         \<and> sorted_wrt (\<lambda>x y. mvvLva cap_pos y \<le> mvvLva cap_pos x) (orderMoves cap_pos mv))
   \<and> flags (mk_move 28 35 0 0) AND MF_ENPASSANT = 0
   \<and> own_piece (flip (stm cap_pos)) BP \<and> has (pcs cap_pos) BP (to_sq (mk_move 28 35 0 0))
   \<and> piece_at cap_pos (int (to_sq (mk_move 28 35 0 0))) = BP
   \<and> piece_at cap_pos (int (from_sq (mk_move 28 35 0 0))) = WP
   \<and> pieceValueForMVV BP = 100 \<and> pieceValueForMVV WP = 100
   \<and> mvvLva cap_pos (mk_move 28 35 0 0) = 10 * 100 - 100"
proof -
  from legal_line_generated [OF cap_reachable cap_exd5] obtain mv where
    g: "generateMoves cap_pos = Some mv" "mk_move 28 35 0 0 \<in> set mv" by blast
  have f: "flags (mk_move 28 35 0 0) AND MF_ENPASSANT = 0" by (simp add: mk_move_def)
  have o: "own_piece (flip (stm cap_pos)) BP"
    by (simp add: cap_pieces own_piece_def flip_def piece_defs)
  have pc: "piece_at cap_pos (int (to_sq (mk_move 28 35 0 0))) = BP"
    "piece_at cap_pos (int (from_sq (mk_move 28 35 0 0))) = WP"
    using cap_pieces by (simp_all add: mk_move_def)
  have "piece_at cap_pos (int 35) = BP" using cap_pieces(2) by simp
  then have "has (pcs cap_pos) BP (nat (int 35))"
    using piece_at_cases [OF Inv_len [OF reachable_Inv [OF cap_reachable]], of "int 35"]
    by (auto simp: piece_defs)
  then have h: "has (pcs cap_pos) BP (to_sq (mk_move 28 35 0 0))" by (simp add: mk_move_def)
  from o h have e: "\<exists>p. own_piece (flip (stm cap_pos)) p
      \<and> has (pcs cap_pos) p (to_sq (mk_move 28 35 0 0))" by blast
  note t = mvvLva_score [OF cap_reachable g]
  from t have v: "pieceValueForMVV BP = 100" "pieceValueForMVV WP = 100" by simp_all
  from t f e have "mvvLva cap_pos (mk_move 28 35 0 0)
      = 10 * pieceValueForMVV (piece_at cap_pos (int (to_sq (mk_move 28 35 0 0))))
          - pieceValueForMVV (piece_at cap_pos (int (from_sq (mk_move 28 35 0 0))))"
    by simp
  then have sc: "mvvLva cap_pos (mk_move 28 35 0 0) = 10 * 100 - 100"
    by (simp only: pc v)
  from t have "sorted_wrt (\<lambda>x y. mvvLva cap_pos y \<le> mvvLva cap_pos x) (orderMoves cap_pos mv)"
    by blast
  with cap_reachable g f o h pc v sc show ?thesis by blast
qed

text \<open>
  The score of the claim's wording, one hundred times the victim's value minus the attacker's,
  is not what the code computes: for \<open>exd5\<close> after 1. e4 d5 it would be 9900, and the code
  gives 900.
\<close>

theorem mvvLva_not_hundredfold:
  "reachable cap_pos
   \<and> mk_move 28 35 0 0 \<in> set (the (generateMoves cap_pos))
   \<and> piece_at cap_pos 28 = WP \<and> piece_at cap_pos 35 = BP
   \<and> mvvLva cap_pos (mk_move 28 35 0 0) = 900
   \<and> 100 * pieceValueForMVV (piece_at cap_pos 35) - pieceValueForMVV (piece_at cap_pos 28) = 9900"
proof -
  from legal_line_generated [OF cap_reachable cap_exd5]
  have "mk_move 28 35 0 0 \<in> set (the (generateMoves cap_pos))" by auto
  with cap_reachable cap_pieces cap_score show ?thesis
    by (simp add: pieceValueForMVV_def piece_defs)
qed


section \<open>The root of the search without legal moves\<close>

text \<open>
  Claim C5. On a position without legal moves \<open>search_root\<close> returns the value-initialised
  move and an empty principal variation, with no nodes counted. The score it returns is the
  initial value \<open>-10000000\<close> of \<open>bestScore\<close>, whether or not the side to move is in check:
  the mate score \<open>-100000 + ply\<close> is computed by \<open>negamax\<close> only, which \<open>search_root\<close>
  does not call when the move list is empty.
\<close>

theorem search_root_no_legal_moves:
  assumes "generateMoves b = Some []"
  shows "search_root k ev b depth
           = Some (\<lparr>best = no_move, score = - 10000000, nodes = 0, pv = []\<rparr>, b)"
  using assms by (simp add: search_root_def orderMoves_def no_move_def mk_move_def)

lemma mate_line:
  "legal_line startpos
     [mk_move 13 21 0 0, mk_move 52 36 0 0, mk_move 14 30 0 0, mk_move 59 31 0 0]"
  by (simp add: ev cong: ev_cong)

lemma mate_reachable: "reachable mate_pos"
  unfolding mate_pos_def by (rule after_reachable [OF mate_line])

lemma mate_no_moves: "generateMoves mate_pos = Some []"
  by (simp add: mate_pos_def ev cong: ev_cong)

lemma mate_check: "inCheck mate_pos (stm mate_pos)" "ply mate_pos = 4"
  by (simp_all add: mate_pos_def ev cong: ev_cong)

text \<open>
  After 1. f3 e5 2. g4 Qh4 white is in check and has no legal move. \<open>search_root\<close> returns
  the score \<open>-10000000\<close>; \<open>negamax\<close> on the same position returns the mate score
  \<open>-100000 + 4\<close>.
\<close>

theorem search_root_no_legal_moves_witness:
  "reachable mate_pos \<and> generateMoves mate_pos = Some []
   \<and> inCheck mate_pos (stm mate_pos) \<and> ply mate_pos = 4
   \<and> search_root 1 (\<lambda>b. 0) mate_pos 1
       = Some (\<lparr>best = no_move, score = - 10000000, nodes = 0, pv = []\<rparr>, mate_pos)
   \<and> negamax 1 (\<lambda>b. 0) mate_pos 1 (- 10000000) 10000000 0 = Some (- 99996, mate_pos, 1)"
proof -
  have "negamax 1 (\<lambda>b. 0) mate_pos 1 (- 10000000) 10000000 0 = Some (- 99996, mate_pos, 1)"
    by (simp add: mate_no_moves mate_check)
  with search_root_no_legal_moves [OF mate_no_moves, of 1 "\<lambda>b. 0" 1]
    mate_reachable mate_no_moves mate_check
  show ?thesis by simp
qed


section \<open>Promotion\<close>

text \<open>
  Claim C3. The generator emits no promotion: on a reachable position every generated move has
  the promotion field 0, and after \<open>makeMove\<close> the destination holds the piece that moved.
  So a pawn that reaches the last rank is moved there as a pawn, by a plain move.
\<close>

theorem generated_no_promotion:
  assumes "reachable b" "generateMoves b = Some mv" "m \<in> set mv"
  shows "promo m = 0
       \<and> (\<exists>b'. makeMove b m = Some b' \<and> movingPiece b m < 12
              \<and> has (pcs b') (movingPiece b m) (to_sq m))"
proof -
  note inv = reachable_Inv [OF assms(1)]
  note ok = generated_ok [OF inv assms(2,3)]
  from ok have p: "promo m = 0" by (simp add: pseudo_ok_def)
  from assms(2,3) obtain b' where mk: "makeMove b m = Some b'" by (rule generated_make)
  note f = makeMove_fields [OF mk]
  have "movingPiece b m < 12 \<and> has (makeMove_pcs b m) (movingPiece b m) (to_sq m)"
  proof (rule make_shape [OF inv ok], goal_cases)
    case (1 p)
    from patched_has [OF 1(5) 1(2), of "to_sq m"] 1(2,4) show ?case by simp
  next
    case (2 P E cs)
    from patched_has [OF 2(15) 2(2), of "to_sq m"] 2(2,5) show ?case by simp
  next
    case (3 K R rf rt)
    from patched_has [OF 3(15) 3(2), of "to_sq m"] 3(2,5) show ?case by simp
  qed
  with p mk f(2) show ?thesis by simp
qed

lemma prom_line:
  "legal_line startpos
     [mk_move 8 24 0 0, mk_move 49 33 0 0, mk_move 24 33 0 0, mk_move 48 40 0 0,
      mk_move 33 40 0 0, mk_move 58 49 0 0, mk_move 40 49 0 0, mk_move 55 47 0 0]"
  by (simp add: ev cong: ev_cong)

lemma prom_reachable: "reachable prom_pos"
  unfolding prom_pos_def by (rule after_reachable [OF prom_line])

lemma prom_bxa8: "legal_line prom_pos [mk_move 49 56 0 0]"
  by (simp add: prom_pos_def ev cong: ev_cong)

lemma prom_pieces:
  "piece_at prom_pos 49 = WP" "piece_at prom_pos 56 = BR" "stm prom_pos = WHITE"
  by (simp_all add: prom_pos_def ev cong: ev_cong)

text \<open>
  After 1. a4 b5 2. axb5 a6 3. bxa6 Bb7 4. axb7 h6 the white pawn on \<open>b7\<close> can capture the
  rook on \<open>a8\<close>. The generator emits the capture as the plain move \<open>b7a8\<close> with promotion
  field 0, and \<open>makeMove\<close> of it leaves a white pawn on \<open>a8\<close>.
\<close>

theorem generated_no_promotion_witness:
  "reachable prom_pos
   \<and> (\<exists>mv. generateMoves prom_pos = Some mv \<and> mk_move 49 56 0 0 \<in> set mv)
   \<and> movingPiece prom_pos (mk_move 49 56 0 0) = WP
   \<and> promo (mk_move 49 56 0 0) = 0
   \<and> (\<exists>b'. makeMove prom_pos (mk_move 49 56 0 0) = Some b' \<and> has (pcs b') WP 56)"
proof -
  from legal_line_generated [OF prom_reachable prom_bxa8] obtain mv where
    g: "generateMoves prom_pos = Some mv" "mk_move 49 56 0 0 \<in> set mv" by blast
  have mp: "movingPiece prom_pos (mk_move 49 56 0 0) = WP"
    using prom_pieces(1) by (simp add: movingPiece_def mk_move_def)
  have t: "to_sq (mk_move 49 56 0 0) = 56" by (simp add: mk_move_def)
  from generated_no_promotion [OF prom_reachable g] prom_reachable g mp t
  show ?thesis by auto
qed


section \<open>Castling\<close>

lemma castle_line:
  "legal_line startpos
     [mk_move 11 27 0 0, mk_move 51 35 0 0, mk_move 2 29 0 0,
      mk_move 58 37 0 0, mk_move 3 19 0 0, mk_move 59 43 0 0]"
  by (simp add: ev cong: ev_cong)

lemma castle_reachable: "reachable castle_pos"
  unfolding castle_pos_def by (rule after_reachable [OF castle_line])

lemma castle_long: "legal_line castle_pos [mk_move 4 2 0 MF_CASTLE]"
  by (simp add: castle_pos_def ev cong: ev_cong)

lemma castle_pieces:
  "stm castle_pos = WHITE" "piece_at castle_pos 0 = WR" "piece_at castle_pos 1 = WN"
  "piece_at castle_pos 2 = NO_PIECE" "piece_at castle_pos 3 = NO_PIECE"
  "piece_at castle_pos 4 = WK"
  by (simp_all add: castle_pos_def ev cong: ev_cong)

text \<open>
  Claim C2. The generator tests only \<open>d1\<close> and \<open>c1\<close> (for black \<open>d8\<close> and \<open>c8\<close>) for
  emptiness before it emits queen-side castling; \<open>b1\<close>, which also lies between the king and
  the rook, is not tested. After 1. d4 d5 2. Bf4 Bf5 3. Qd3 Qd6 the white knight is still on
  \<open>b1\<close> (square 1), and \<open>generateMoves\<close> returns the castling move \<open>e1c1\<close>.
\<close>

theorem castle_past_knight_on_b1:
  "reachable castle_pos \<and> stm castle_pos = WHITE
   \<and> piece_at castle_pos 0 = WR \<and> piece_at castle_pos 1 = WN \<and> piece_at castle_pos 4 = WK
   \<and> (\<exists>mv. generateMoves castle_pos = Some mv \<and> mk_move 4 2 0 MF_CASTLE \<in> set mv)"
  using castle_reachable castle_pieces legal_line_generated [OF castle_reachable castle_long]
  by simp


section \<open>Perft at small depths\<close>

lemma perft_depth_0: "perft (Suc k) b 0 = Some (1, b)"
  by simp


lemma pseudo_ok_agree: "agree a b \<Longrightarrow> pseudo_ok a m \<Longrightarrow> pseudo_ok b m"
  by (simp add: agree_def same_position_def pseudo_ok_def plain_ok_def ep_move_ok_def
      castle_ok_def)

text \<open>
  The loop of \<open>perft\<close> at depth 1: every move is made, counted once and unmade, and the board
  is the same position afterwards.
\<close>

lemma perft_loop_1:
  assumes "Inv b" "0 \<le> ply b" "ply b < 512"
  shows "agree b0 b \<Longrightarrow> (\<And>m. m \<in> set ms \<Longrightarrow> pseudo_ok b m) \<Longrightarrow>
    \<exists>b'. loopM (\<lambda>(nodes, b0) m.
                    case makeMove b0 m of
                      None \<Rightarrow> None
                    | Some b1 \<Rightarrow>
                       (case perft (Suc k) b1 (1 - 1) of
                          None \<Rightarrow> None
                        | Some (n, b2) \<Rightarrow>
                           (case unmakeMove b2 m of
                              None \<Rightarrow> None
                            | Some b3 \<Rightarrow> Some (nodes + n, b3))))
                 ms (n0, b0) = Some (n0 + of_nat (length ms), b') \<and> agree b' b"
proof (induction ms arbitrary: n0 b0)
  case Nil
  then show ?case by simp
next
  case (Cons m ms)
  note inv0 = Inv_agree [OF agree_sym [OF Cons.prems(1)] assms(1)]
  have ok: "pseudo_ok b0 m"
    by (rule pseudo_ok_agree [OF agree_sym [OF Cons.prems(1)]]) (simp add: Cons.prems(2))
  from Cons.prems(1) assms(2,3) have pl: "0 \<le> ply b0" "ply b0 < 512"
    by (simp_all add: agree_def same_position_def)
  from pseudo_make_defined [OF inv0 ok pl] obtain b1 where mk: "makeMove b0 m = Some b1"
    by (simp add: makeMove_def)
  from roundtrip [OF inv0 ok mk] obtain b3 where u: "unmakeMove b1 m = Some b3" "agree b3 b0"
    by blast
  from agree_trans [OF u(2) Cons.prems(1)] have a3: "agree b3 b" .
  from Cons.IH [OF a3, of "n0 + 1"] Cons.prems(2) mk u(1) show ?case
    by (simp add: add.assoc)
qed

text \<open>At depth 1 \<open>perft\<close> returns the number of generated moves.\<close>

lemma perft_depth_1:
  assumes "reachable b" "0 \<le> ply b" "ply b < 512" "generateMoves b = Some mv"
  shows "\<exists>b'. perft (Suc (Suc k)) b 1 = Some (of_nat (length mv), b') \<and> agree b' b"
proof -
  note inv = reachable_Inv [OF assms(1)]
  have ok: "pseudo_ok b m" if "m \<in> set mv" for m
    by (rule generated_ok [OF inv assms(4) that])
  from perft_loop_1 [OF inv assms(2,3) agree_refl ok, of mv k 0] assms(4)
  show ?thesis by simp
qed

lemma startpos_moves:
  "generateMoves startpos = Some
    [mk_move 8 16 0 0, mk_move 9 17 0 0, mk_move 10 18 0 0, mk_move 11 19 0 0,
     mk_move 12 20 0 0, mk_move 13 21 0 0, mk_move 14 22 0 0, mk_move 15 23 0 0,
     mk_move 8 24 0 0, mk_move 9 25 0 0, mk_move 10 26 0 0, mk_move 11 27 0 0,
     mk_move 12 28 0 0, mk_move 13 29 0 0, mk_move 14 30 0 0, mk_move 15 31 0 0,
     mk_move 1 16 0 0, mk_move 1 18 0 0, mk_move 6 21 0 0, mk_move 6 23 0 0]"
  by (simp add: ev cong: ev_cong)

lemma perft_start_1: "\<exists>b'. perft 2 startpos 1 = Some (20, b') \<and> agree b' startpos"
proof -
  have p: "0 \<le> ply startpos" "ply startpos < 512" by (simp_all add: startpos_eq)
  from perft_depth_1 [OF reachable_startpos p startpos_moves, of 0] show ?thesis
    by (simp add: numeral_2_eq_2)
qed


section \<open>unmakeMove of a promotion\<close>

text \<open>
  Claim C1. \<open>makeMove\<close> followed by \<open>unmakeMove\<close> does not restore the position when the
  move is a promotion. \<open>unmakeMove\<close> chooses the pawn to put back after it has flipped the
  side to move back to the mover, with the colours exchanged: when a pawn of the side to move
  stands on the origin of a move with a promotion piece, \<open>unmakeMove\<close> after \<open>makeMove\<close> is
  defined and puts a pawn of the other side on the origin, so the piece bitboards are not
  those of the position before the move. (For the moves that \<open>generateMoves\<close> returns, none
  of which is a promotion, the position is restored: \<open>generated_roundtrip\<close>.)
\<close>

theorem unmake_promotion_wrong_pawn:
  assumes "reachable b" "makeMove b m = Some b'" "promo m \<noteq> 0"
    "has (pcs b) (if stm b = WHITE then WP else BP) (from_sq m)"
  shows "\<exists>b''. unmakeMove b' m = Some b''
           \<and> has (pcs b'') (if stm b = WHITE then BP else WP) (from_sq m)
           \<and> \<not> has (pcs b) (if stm b = WHITE then BP else WP) (from_sq m)
           \<and> pcs b'' \<noteq> pcs b"
proof -
  note inv = reachable_Inv [OF assms(1)]
  note len = Inv_len [OF inv] and dj = Inv_dj [OF inv]
  note f = makeMove_fields [OF assms(2)]
  from f(1) assms(3) have d: "0 \<le> ply b" "ply b < 512" "from_sq m < 64" "to_sq m < 64"
    "promo m < 12"
    by (simp_all add: makeMove_defined_def)
  have h: "hist b' (nat (ply b)) = \<lparr>last_mv = m, captured = int (capturedPiece b m),
        prevEpSquare = epSquare b, prevCastleRights = castleRights b\<rparr>"
    by (simp add: f(6))
  have c12: "capturedPiece b m \<le> 12"
    using piece_at_le12 [of b "int (to_sq m)"] by (simp add: capturedPiece_def piece_defs)
  have r: "nat (captured (hist b' (nat (ply b' - 1)))) < 12" if "restored b'"
    using that c12 by (simp add: restored_def f(4) h NO_PIECE_def)
  have def: "unmakeMove_defined b' m"
    using d assms(3) r by (auto simp: unmakeMove_defined_def f(4) h restored_def)
  define b'' where "b'' = set_occ
               (b'\<lparr>ply := ply b' - 1, stm := flip (stm b'),
                  epSquare := prevEpSquare (hist b' (nat (ply b' - 1))),
                  castleRights := prevCastleRights (hist b' (nat (ply b' - 1))),
                  pcs := unmakeMove_pcs b' m\<rparr>)"
  from def have u: "unmakeMove b' m = Some b''" by (simp add: unmakeMove_def b''_def)
  have p: "pcs b'' = unmakeMove_pcs b' m" by (simp add: b''_def)
  have l': "length (pcs b') = 12" by (simp add: f(2) len)
  have w: "(if stm b = WHITE then BP else WP) < 12" by (simp add: piece_defs)
  have on: "has (pcs b'') (if stm b = WHITE then BP else WP) (from_sq m)"
    unfolding p unmakeMove_pcs_def Let_def
    using assms(3) d(3) r l' by (auto simp: has_put f(5) piece_defs)
  have ne: "(if stm b = WHITE then WP else BP) \<noteq> (if stm b = WHITE then BP else WP)"
    by (simp add: piece_defs)
  have off: "\<not> has (pcs b) (if stm b = WHITE then BP else WP) (from_sq m)"
    using disjoint_has [OF dj _ w assms(4)] ne by (auto simp: piece_defs)
  from on off have "pcs b'' \<noteq> pcs b" by auto
  with u on off show ?thesis by blast
qed

lemma prom_queen: "\<exists>b'. makeMove prom_pos (mk_move 49 56 WQ 0) = Some b'"
  by (simp add: prom_pos_def ev cong: ev_cong)

text \<open>
  After 1. a4 b5 2. axb5 a6 3. bxa6 Bb7 4. axb7 h6 the promotion \<open>b7xa8=Q\<close>, made and
  unmade, leaves a black pawn on \<open>b7\<close> (square 49), where the white pawn stood.
\<close>

theorem unmake_promotion_wrong_pawn_witness:
  "reachable prom_pos \<and> stm prom_pos = WHITE \<and> promo (mk_move 49 56 WQ 0) \<noteq> 0
   \<and> has (pcs prom_pos) WP 49
   \<and> (\<exists>b' b''. makeMove prom_pos (mk_move 49 56 WQ 0) = Some b'
         \<and> unmakeMove b' (mk_move 49 56 WQ 0) = Some b''
         \<and> has (pcs b'') BP 49 \<and> \<not> has (pcs prom_pos) BP 49 \<and> pcs b'' \<noteq> pcs prom_pos)"
proof -
  from prom_queen obtain b' where mk: "makeMove prom_pos (mk_move 49 56 WQ 0) = Some b'" ..
  have q: "promo (mk_move 49 56 WQ 0) \<noteq> 0" by (simp add: mk_move_def piece_defs)
  have "piece_at prom_pos (int 49) = WP" using prom_pieces(1) by simp
  then have "has (pcs prom_pos) WP (nat (int 49))"
    using piece_at_cases [OF Inv_len [OF reachable_Inv [OF prom_reachable]], of "int 49"]
    by (auto simp: piece_defs)
  then have h: "has (pcs prom_pos) WP 49" by simp
  have s: "stm prom_pos = WHITE" by (rule prom_pieces(3))
  have f: "from_sq (mk_move 49 56 WQ 0) = 49" by (simp add: mk_move_def)
  from unmake_promotion_wrong_pawn [OF prom_reachable mk q] h s f
  obtain b'' where "unmakeMove b' (mk_move 49 56 WQ 0) = Some b''"
    "has (pcs b'') BP 49" "\<not> has (pcs prom_pos) BP 49" "pcs b'' \<noteq> pcs prom_pos"
    by auto
  with prom_reachable s q h mk show ?thesis by blast
qed

end
